theory Spec2Isabelle
  imports Main "HOL-Library.Word"
begin

unbundle bit_operations_syntax

section \<open>The Bech32 codec of \<^verbatim>\<open>src/__init__.py\<close>\<close>

text \<open>
  Python values are modelled as follows.
  \<^item> A \<^verbatim>\<open>str\<close> is the list of its code points; \<^verbatim>\<open>ord\<close> is the identity on a code
    point, and a literal such as \<^verbatim>\<open>"bc"\<close> is written \<open>py_str ''bc''\<close>.
  \<^item> Python's unbounded \<^verbatim>\<open>int\<close> is \<open>int\<close>; \<^verbatim>\<open>&\<close>, \<^verbatim>\<open>|\<close>, \<^verbatim>\<open>^\<close>, \<^verbatim>\<open><<\<close> and \<^verbatim>\<open>>>\<close> are
    \<open>AND\<close>, \<open>OR\<close>, \<open>XOR\<close>, \<open>push_bit\<close> and \<open>drop_bit\<close>, which agree with Python on
    negative numbers as well (two's complement of unbounded width).
  \<^item> The pair \<^verbatim>\<open>(None, None)\<close> against \<^verbatim>\<open>(a, b)\<close> is a pair of options.
  \<^item> An exception is a value \<open>Inl e\<close>; a call that does not return is \<open>None\<close> at the
    outermost level of the functions that contain the \<^verbatim>\<open>while\<close> loop.
  \<^item> The bit widths \<^verbatim>\<open>frombits\<close> and \<^verbatim>\<open>tobits\<close> of \<^verbatim>\<open>convertbits\<close> are naturals:
    every call in the repository passes the constants 8 and 5.
\<close>

type_synonym str = "nat list"

datatype error = IndexError | AssertionError | ValueError

definition py_str :: "string \<Rightarrow> str" where
  "py_str s = map of_char s"

definition CHARSET :: str where
  "CHARSET = py_str ''qpzry9x8gf2tvdw0s3jn54khce6mua7l''"

subsection \<open>Built-in string operations used by the code\<close>

text \<open>\<^verbatim>\<open>str.lower\<close> and \<^verbatim>\<open>str.upper\<close>; the code evaluates them only on strings whose
  code points all lie in 33..126, where they change the 26 ASCII letters only.\<close>

definition lower_ch :: "nat \<Rightarrow> nat" where
  "lower_ch c = (if 65 \<le> c \<and> c \<le> 90 then c + 32 else c)"

definition upper_ch :: "nat \<Rightarrow> nat" where
  "upper_ch c = (if 97 \<le> c \<and> c \<le> 122 then c - 32 else c)"

definition lower :: "str \<Rightarrow> str" where
  "lower s = map lower_ch s"

definition upper :: "str \<Rightarrow> str" where
  "upper s = map upper_ch s"

text \<open>\<^verbatim>\<open>s.rfind(c)\<close> and \<^verbatim>\<open>s.find(c)\<close> for a one-character \<^verbatim>\<open>c\<close>: the highest, respectively
  lowest, index of \<^verbatim>\<open>c\<close> in \<^verbatim>\<open>s\<close>, and \<^verbatim>\<open>-1\<close> when there is none.\<close>

fun rfind :: "str \<Rightarrow> nat \<Rightarrow> int" where
  "rfind [] c = -1"
| "rfind (x # xs) c =
     (let r = rfind xs c in if 0 \<le> r then r + 1 else if x = c then 0 else -1)"

fun find_ch :: "str \<Rightarrow> nat \<Rightarrow> int" where
  "find_ch [] c = -1"
| "find_ch (x # xs) c =
     (if x = c then 0 else let r = find_ch xs c in if r < 0 then -1 else r + 1)"

text \<open>\<^verbatim>\<open>CHARSET[d]\<close>: a negative index counts from the end, an index out of range raises.\<close>

definition charset_at :: "int \<Rightarrow> error + nat" where
  "charset_at d =
     (let n = int (length CHARSET); j = (if d < 0 then n + d else d)
      in if 0 \<le> j \<and> j < n then Inr (CHARSET ! nat j) else Inl IndexError)"

fun charset_map :: "int list \<Rightarrow> error + str" where
  "charset_map [] = Inr []"
| "charset_map (d # ds) =
     (case charset_at d of
        Inl e \<Rightarrow> Inl e
      | Inr c \<Rightarrow> (case charset_map ds of Inl e \<Rightarrow> Inl e | Inr cs \<Rightarrow> Inr (c # cs)))"

subsection \<open>Checksum\<close>

definition generator :: "int list" where
  "generator = [0x3b6a57b2, 0x26508e6d, 0x1ea119fa, 0x3d4233dd, 0x2a1462b3]"

text \<open>One iteration of the \<^verbatim>\<open>for value in values\<close> loop of \<^verbatim>\<open>bech32_polymod\<close>.\<close>

definition polymod_step :: "int \<Rightarrow> int \<Rightarrow> int" where
  "polymod_step chk v =
     (let top' = drop_bit 25 chk;
          chk1 = push_bit 5 (chk AND 0x1ffffff) XOR v
      in foldl (\<lambda>c i. c XOR (if drop_bit i top' AND 1 \<noteq> 0 then generator ! i else 0))
           chk1 [0..<5])"

definition bech32_polymod :: "int list \<Rightarrow> int" where
  "bech32_polymod values = foldl polymod_step 1 values"

definition bech32_hrp_expand :: "str \<Rightarrow> int list" where
  "bech32_hrp_expand hrp =
     map (\<lambda>x. drop_bit 5 (int x)) hrp @ [0] @ map (\<lambda>x. int x AND 31) hrp"

definition bech32_verify_checksum :: "str \<Rightarrow> int list \<Rightarrow> bool" where
  "bech32_verify_checksum hrp data \<longleftrightarrow> bech32_polymod (bech32_hrp_expand hrp @ data) = 1"

definition bech32_create_checksum :: "str \<Rightarrow> int list \<Rightarrow> int list" where
  "bech32_create_checksum hrp data =
     (let values = bech32_hrp_expand hrp @ data;
          polymod = bech32_polymod (values @ [0, 0, 0, 0, 0, 0]) XOR 1
      in map (\<lambda>i. drop_bit (5 * (5 - i)) polymod AND 31) [0..<6])"

subsection \<open>Plain Bech32 strings\<close>

definition bech32_encode :: "str \<Rightarrow> int list \<Rightarrow> error + str" where
  "bech32_encode hrp data =
     (let combined = data @ bech32_create_checksum hrp data
      in case charset_map combined of
           Inl e \<Rightarrow> Inl e
         | Inr cs \<Rightarrow> Inr (hrp @ py_str ''1'' @ cs))"

definition bech32_decode :: "str \<Rightarrow> str option \<times> int list option" where
  "bech32_decode bech =
     (if (\<exists>x \<in> set bech. x < 33 \<or> x > 126) \<or> (lower bech \<noteq> bech \<and> upper bech \<noteq> bech)
      then (None, None)
      else
        let bech = lower bech;
            pos = rfind bech 49
        in if pos < 1 \<or> pos > 83 \<or> pos + 7 > int (length bech) then (None, None)
           else if \<not> (\<forall>x \<in> set (drop (nat (pos + 1)) bech). x \<in> set CHARSET)
           then (None, None)
           else
             let hrp = take (nat pos) bech;
                 data = map (find_ch CHARSET) (drop (nat (pos + 1)) bech)
             in if \<not> bech32_verify_checksum hrp data then (None, None)
                else (Some hrp, Some (take (length data - 6) data)))"

subsection \<open>Regrouping bits\<close>

text \<open>The inner \<^verbatim>\<open>while bits >= tobits\<close> loop of \<^verbatim>\<open>convertbits\<close>, on the variables it
  changes. With \<^verbatim>\<open>tobits = 0\<close> it never ends, which is the value \<open>None\<close>.\<close>

partial_function (option) emit ::
  "int \<Rightarrow> nat \<Rightarrow> int \<Rightarrow> nat \<Rightarrow> int list \<Rightarrow> (nat \<times> int list) option" where
  "emit acc tobits maxv bits ret =
     (if bits \<ge> tobits
      then emit acc tobits maxv (bits - tobits) (ret @ [drop_bit (bits - tobits) acc AND maxv])
      else Some (bits, ret))"

declare emit.simps [code]

text \<open>The \<^verbatim>\<open>for value in data\<close> loop: \<open>Some (Inl ())\<close> is the early \<^verbatim>\<open>return None\<close>,
  \<open>Some (Inr (acc, bits, ret))\<close> the state after the last value.\<close>

fun convert_loop ::
  "nat \<Rightarrow> nat \<Rightarrow> int \<Rightarrow> int \<Rightarrow> int list \<Rightarrow> int \<Rightarrow> nat \<Rightarrow> int list
     \<Rightarrow> (unit + int \<times> nat \<times> int list) option" where
  "convert_loop frombits tobits maxv max_acc [] acc bits ret = Some (Inr (acc, bits, ret))"
| "convert_loop frombits tobits maxv max_acc (v # data) acc bits ret =
     (if v < 0 \<or> drop_bit frombits v \<noteq> 0 then Some (Inl ())
      else
        let acc = (push_bit frombits acc OR v) AND max_acc;
            bits = bits + frombits
        in case emit acc tobits maxv bits ret of
             None \<Rightarrow> None
           | Some (bits, ret) \<Rightarrow> convert_loop frombits tobits maxv max_acc data acc bits ret)"

text \<open>\<^verbatim>\<open>1 << (frombits + tobits - 1)\<close> raises \<^verbatim>\<open>ValueError\<close> for the negative shift count
  that two zero widths give.\<close>

definition convertbits :: "int list \<Rightarrow> nat \<Rightarrow> nat \<Rightarrow> bool \<Rightarrow> (error + int list option) option" where
  "convertbits data frombits tobits pad =
     (let maxv = push_bit tobits 1 - 1 in
      if frombits + tobits = 0 then Some (Inl ValueError)
      else
        let max_acc = push_bit (frombits + tobits - 1) 1 - 1
        in case convert_loop frombits tobits maxv max_acc data 0 0 [] of
             None \<Rightarrow> None
           | Some (Inl _) \<Rightarrow> Some (Inr None)
           | Some (Inr (acc, bits, ret)) \<Rightarrow>
               if pad then
                 (if bits \<noteq> 0
                  then Some (Inr (Some (ret @ [push_bit (tobits - bits) acc AND maxv])))
                  else Some (Inr (Some ret)))
               else if bits \<ge> frombits \<or> push_bit (tobits - bits) acc AND maxv \<noteq> 0
               then Some (Inr None)
               else Some (Inr (Some ret)))"

subsection \<open>Witness addresses\<close>

definition decode :: "str \<Rightarrow> str \<Rightarrow> (error + int option \<times> int list option) option" where
  "decode hrp addr =
     (let (hrpgot, data) = bech32_decode addr
      in if hrpgot \<noteq> Some hrp then Some (Inr (None, None))
         else (case data of
           None \<Rightarrow> Some (Inl AssertionError)
         | Some data \<Rightarrow>
            (case convertbits (drop 1 data) 5 8 False of
               None \<Rightarrow> None
             | Some (Inl e) \<Rightarrow> Some (Inl e)
             | Some (Inr decoded) \<Rightarrow>
                 (case decoded of
                    None \<Rightarrow> Some (Inr (None, None))
                  | Some decoded \<Rightarrow>
                      if length decoded < 2 \<or> length decoded > 40 then Some (Inr (None, None))
                      else (case data of
                        [] \<Rightarrow> Some (Inl IndexError)
                      | d0 # _ \<Rightarrow>
                          if d0 > 16 then Some (Inr (None, None))
                          else if d0 = 0 \<and> length decoded \<noteq> 20 \<and> length decoded \<noteq> 32
                          then Some (Inr (None, None))
                          else Some (Inr (Some d0, Some decoded)))))))"

definition encode :: "str \<Rightarrow> int \<Rightarrow> int list \<Rightarrow> (error + str option) option" where
  "encode hrp witver witprog =
     (case convertbits witprog 8 5 True of
        None \<Rightarrow> None
      | Some (Inl e) \<Rightarrow> Some (Inl e)
      | Some (Inr None) \<Rightarrow> Some (Inr None)
      | Some (Inr (Some five_bit_witprog)) \<Rightarrow>
          (case bech32_encode hrp (witver # five_bit_witprog) of
             Inl e \<Rightarrow> Some (Inl e)
           | Inr ret \<Rightarrow>
               (case decode hrp ret of
                  None \<Rightarrow> None
                | Some (Inl e) \<Rightarrow> Some (Inl e)
                | Some (Inr r) \<Rightarrow> if r = (None, None) then Some (Inr None) else Some (Inr (Some ret)))))"

subsection \<open>Auxiliary notions for the proofs\<close>

text \<open>The contribution of the five top bits of the accumulator to \<open>polymod_step\<close>: the
  inner \<^verbatim>\<open>for i in range(5)\<close> loop started from 0.\<close>

definition gmix :: "int \<Rightarrow> int" where
  "gmix t = foldl (\<lambda>c i. c XOR (if drop_bit i t AND 1 \<noteq> 0 then generator ! i else 0)) 0 [0..<5]"

text \<open>The number written by the digits \<open>xs\<close> of \<open>b\<close> bits each, most significant first,
  after the digits of \<open>n\<close>.\<close>

definition val :: "nat \<Rightarrow> int \<Rightarrow> int list \<Rightarrow> int" where
  "val b n xs = foldl (\<lambda>a x. push_bit b a OR x) n xs"

text \<open>The first \<open>k\<close> accumulators when the loop of \<^verbatim>\<open>bech32_polymod\<close> reads zeros from
  the accumulator \<open>c\<close>.\<close>

fun orbit :: "nat \<Rightarrow> int \<Rightarrow> int list" where
  "orbit 0 c = []"
| "orbit (Suc k) c = c # orbit k (polymod_step c 0)"

section \<open>Facts about the operations\<close>

lemma rfind_range: "- 1 \<le> rfind s c \<and> rfind s c < int (length s)"
  by (induction s) (auto simp: Let_def)

lemma rfind_nth: "0 \<le> rfind s c \<Longrightarrow> s ! nat (rfind s c) = c"
  by (induction s) (auto simp: Let_def nat_add_distrib split: if_splits)

lemma rfind_neg_iff: "rfind s c < 0 \<longleftrightarrow> c \<notin> set s"
  by (induction s) (auto simp: Let_def)

lemma rfind_nonneg_iff: "0 \<le> rfind s c \<longleftrightarrow> c \<in> set s"
  using rfind_neg_iff[of s c] by linarith

lemma rfind_append_absent: "c \<notin> set ys \<Longrightarrow> rfind (xs @ c # ys) c = int (length xs)"
  by (induction xs) (auto simp: Let_def rfind_nonneg_iff)

lemma lower_ch_49: "lower_ch x = 49 \<longleftrightarrow> x = 49"
  by (auto simp: lower_ch_def)

lemma rfind_lower: "rfind (lower s) 49 = rfind s 49"
  by (induction s) (auto simp: lower_def Let_def lower_ch_49)

lemma lower_idem: "lower (lower s) = lower s"
  by (induction s) (auto simp: lower_def lower_ch_def)

lemma lower_range: "\<forall>x\<in>set s. 33 \<le> x \<and> x \<le> 126 \<Longrightarrow> \<forall>x\<in>set (lower s). 33 \<le> x \<and> x \<le> 126"
  by (auto simp: lower_def lower_ch_def)

lemma lower_take: "lower (take n s) = take n (lower s)"
  by (simp add: lower_def take_map)

lemma CHARSET_codes:
  "CHARSET = [113,112,122,114,121,57,120,56,103,102,50,116,118,100,119,48,115,51,106,110,53,52,107,104,99,101,54,109,117,97,55,108]"
  by (simp add: CHARSET_def py_str_def)

lemma find_ch_range: "x \<in> set cs \<Longrightarrow> 0 \<le> find_ch cs x \<and> find_ch cs x < int (length cs)"
  by (induction cs) (auto simp: Let_def)

lemma find_ch_CHARSET: "x \<in> set CHARSET \<Longrightarrow> 0 \<le> find_ch CHARSET x \<and> find_ch CHARSET x \<le> 31"
  using find_ch_range[of x CHARSET] by (simp add: CHARSET_codes)

lemma bech32_decode_cases:
  "bech32_decode bech = (None, None) \<or> (\<exists>h d. bech32_decode bech = (Some h, Some d))"
  by (simp add: bech32_decode_def Let_def)

lemma bech32_decode_SomeD:
  assumes "bech32_decode bech = (Some hrp, Some data)"
  shows "\<exists>pos. (\<forall>x\<in>set bech. 33 \<le> x \<and> x \<le> 126) \<and> (lower bech = bech \<or> upper bech = bech)
     \<and> rfind bech 49 = int pos \<and> 1 \<le> pos \<and> pos \<le> 83 \<and> pos + 7 \<le> length bech
     \<and> (\<forall>x\<in>set (drop (pos + 1) (lower bech)). x \<in> set CHARSET)
     \<and> hrp = take pos (lower bech)
     \<and> bech32_verify_checksum hrp (map (find_ch CHARSET) (drop (pos + 1) (lower bech)))
     \<and> data = take (length bech - pos - 7) (map (find_ch CHARSET) (drop (pos + 1) (lower bech)))"
proof -
  let ?p = "rfind bech 49"
  from assms have c: "\<not> ((\<exists>x \<in> set bech. x < 33 \<or> x > 126) \<or> (lower bech \<noteq> bech \<and> upper bech \<noteq> bech))"
    by (auto simp: bech32_decode_def split: if_splits)
  from assms c have p: "\<not> (?p < 1 \<or> ?p > 83 \<or> ?p + 7 > int (length (lower bech)))"
    by (auto simp: bech32_decode_def Let_def rfind_lower split: if_splits)
  from assms c p have rest: "(\<forall>x \<in> set (drop (nat (?p + 1)) (lower bech)). x \<in> set CHARSET)"
    "hrp = take (nat ?p) (lower bech)"
    "bech32_verify_checksum hrp (map (find_ch CHARSET) (drop (nat (?p + 1)) (lower bech)))"
    "data = take (length (map (find_ch CHARSET) (drop (nat (?p + 1)) (lower bech))) - 6) (map (find_ch CHARSET) (drop (nat (?p + 1)) (lower bech)))"
    by (auto simp: bech32_decode_def Let_def rfind_lower split: if_splits)
  have n: "nat (?p + 1) = nat ?p + 1" using p by arith
  have l: "length (lower bech) = length bech" by (simp add: lower_def)
  show ?thesis
    apply (rule exI[of _ "nat ?p"])
    using c p rest unfolding n l
    by (auto simp: not_less not_le l add.commute)
qed

lemma bech32_decode_SomeI:
  assumes "\<forall>x\<in>set bech. 33 \<le> x \<and> x \<le> 126" and "lower bech = bech \<or> upper bech = bech"
    and "rfind bech 49 = int pos" and "1 \<le> pos" and "pos \<le> 83" and "pos + 7 \<le> length bech"
    and "\<forall>x\<in>set (drop (pos + 1) (lower bech)). x \<in> set CHARSET"
    and "bech32_verify_checksum (take pos (lower bech)) (map (find_ch CHARSET) (drop (pos + 1) (lower bech)))"
  shows "bech32_decode bech = (Some (take pos (lower bech)),
           Some (take (length bech - pos - 7) (map (find_ch CHARSET) (drop (pos + 1) (lower bech)))))"
proof -
  have n: "nat (int pos + 1) = pos + 1" by simp
  have l: "length (lower bech) = length bech" by (simp add: lower_def)
  have c: "\<not> ((\<exists>x \<in> set bech. x < 33 \<or> x > 126) \<or> (lower bech \<noteq> bech \<and> upper bech \<noteq> bech))"
    using assms(1,2) by (auto simp: not_less)
  show ?thesis
    unfolding bech32_decode_def Let_def rfind_lower assms(3) n l if_not_P[OF c]
    using assms(4-8) by (simp add: l add.commute)
qed

lemma bech32_decode_sep_low: "rfind bech 49 < 1 \<or> 83 < rfind bech 49 \<Longrightarrow> bech32_decode bech = (None, None)"
  by (auto simp: bech32_decode_def Let_def rfind_lower)

lemma emit_terminates: "0 < t \<Longrightarrow> \<exists>b r. emit acc t maxv bits ret = Some (b, r)"
proof (induction bits arbitrary: ret rule: less_induct)
  case (less bits)
  show ?case
  proof (cases "t \<le> bits")
    case True
    then have "bits - t < bits" using less.prems by simp
    from less.IH[OF this less.prems] show ?thesis
      by (subst emit.simps) (simp add: True)
  next
    case False
    then show ?thesis by (subst emit.simps) simp
  qed
qed

lemma convert_loop_terminates:
  "0 < t \<Longrightarrow> \<exists>r. convert_loop f t maxv max_acc data acc bits ret = Some r"
proof (induction data arbitrary: acc bits ret)
  case Nil
  then show ?case by simp
next
  case (Cons v data)
  show ?case
  proof (cases "v < 0 \<or> drop_bit f v \<noteq> 0")
    case True
    then show ?thesis by auto
  next
    case False
    obtain b r where e: "emit ((push_bit f acc OR v) AND max_acc) t maxv (bits + f) ret = Some (b, r)"
      using emit_terminates[OF Cons.prems] by blast
    from Cons.IH[OF Cons.prems] obtain r' where
      "convert_loop f t maxv max_acc data ((push_bit f acc OR v) AND max_acc) b r = Some r'" by blast
    with False e show ?thesis by (simp add: Let_def)
  qed
qed

lemma convertbits_returns:
  "0 < t \<Longrightarrow> \<exists>r. convertbits data f t pad = Some (Inr r)"
proof -
  assume t: "0 < t"
  obtain r where "convert_loop f t (push_bit t 1 - 1) (push_bit (f + t - 1) 1 - 1) data 0 0 [] = Some r"
    using convert_loop_terminates[OF t] by blast
  then show ?thesis using t
    by (cases r) (auto simp: convertbits_def Let_def split: prod.splits)
qed

section \<open>The checksum is linear over GF(2)\<close>

lemma upt5: "[0..<5] = [0,1,2,3,4]" by (simp add: upt_rec)

lemma bit_test: "(drop_bit i (t::int) AND 1 \<noteq> 0) = bit t i"
  by (simp add: and_one_eq bit_iff_odd_drop_bit odd_iff_mod_2_eq_one)

lemma mask25: "(k::int) AND 0x1ffffff = take_bit 25 k"
proof -
  have "(0x1ffffff::int) = mask 25" by (simp add: mask_eq_exp_minus_1)
  then show ?thesis by (simp add: take_bit_eq_mask)
qed

lemma gmix_unfold:
  "gmix t = (if bit t 0 then 0x3b6a57b2 else 0) XOR (if bit t 1 then 0x26508e6d else 0)
     XOR (if bit t 2 then 0x1ea119fa else 0) XOR (if bit t 3 then 0x3d4233dd else 0)
     XOR (if bit t 4 then 0x2a1462b3 else 0)"
  unfolding gmix_def upt5 bit_test generator_def by simp

lemma step_gmix: "polymod_step chk v = push_bit 5 (take_bit 25 chk) XOR v XOR gmix (drop_bit 25 chk)"
  unfolding polymod_step_def Let_def gmix_def upt5 mask25
  by (simp add: xor.assoc)

lemma if_xor: "(if p \<noteq> q then g else 0) = (if p then g else 0) XOR (if q then (g::int) else 0)"
  by simp

lemma gmix_xor: "gmix (a XOR b) = gmix a XOR gmix b"
  unfolding gmix_unfold bit_xor_iff if_xor
  by (simp only: xor.assoc xor.left_commute xor.commute)

lemma step_xor: "polymod_step (c XOR d) (v XOR w) = polymod_step c v XOR polymod_step d w"
  unfolding step_gmix take_bit_xor push_bit_xor drop_bit_xor gmix_xor
  by (simp only: xor.assoc xor.left_commute xor.commute)

lemma gmix_0: "gmix 0 = 0" by (simp add: gmix_unfold)

lemma step_0: "polymod_step 0 v = v" by (simp add: step_gmix gmix_0)

lemma foldl_step_xor:
  "length vs = length ws \<Longrightarrow>
   foldl polymod_step (c XOR d) (map2 (XOR) vs ws) = foldl polymod_step c vs XOR foldl polymod_step d ws"
  by (induction vs ws arbitrary: c d rule: list_induct2) (simp_all add: step_xor)

lemma gmix_range: "0 \<le> gmix t \<and> gmix t < 2 ^ 30"
  unfolding gmix_unfold by simp

lemma step_small: "0 \<le> c \<Longrightarrow> c < 2 ^ 25 \<Longrightarrow> polymod_step c v = push_bit 5 c XOR v"
  by (simp add: step_gmix take_bit_int_eq_self drop_bit_eq_div gmix_0)


lemma step_zero_range: "0 \<le> polymod_step c 0 \<and> polymod_step c 0 < 2 ^ 30"
proof -
  have a: "0 \<le> push_bit 5 (take_bit 25 c)" by simp
  have "take_bit 25 c < 2 ^ 25" by (rule take_bit_int_less_exp)
  then have b: "push_bit 5 (take_bit 25 c) < 2 ^ 30"
    by (simp add: push_bit_eq_mult)
  have "push_bit 5 (take_bit 25 c) XOR gmix (drop_bit 25 c) < 2 ^ 30"
    using a b gmix_range[of "drop_bit 25 c"] by (intro XOR_upper) simp_all
  then show ?thesis
    unfolding step_gmix using gmix_range[of "drop_bit 25 c"] by simp
qed

lemma foldl_step_zeros:
  "foldl polymod_step c vs = foldl polymod_step c (replicate (length vs) 0) XOR foldl polymod_step 0 vs"
proof -
  have "map2 (XOR) (replicate (length vs) 0) vs = vs"
    by (induction vs) simp_all
  with foldl_step_xor[of "replicate (length vs) 0" vs c 0] show ?thesis by simp
qed

lemma slice_join: "push_bit 5 (drop_bit (k + 5) (p::int)) XOR (drop_bit k p AND 31) = drop_bit k p"
proof -
  have m: "(31::int) = mask 5" by (simp add: mask_eq_exp_minus_1)
  show ?thesis
    unfolding m
    by (rule bit_eqI) (auto simp: bit_simps)
qed

lemma checksum_unpack:
  assumes "0 \<le> p" "p < 2 ^ 30"
  shows "foldl polymod_step 0 (map (\<lambda>i. drop_bit (5 * (5 - i)) p AND 31) [0..<6]) = p"
proof -
  have u: "[0..<6] = [0,1,2,3,4,5]" by (simp add: upt_rec)
  have r: "0 \<le> drop_bit k p \<and> drop_bit k p < 2 ^ 25" if "5 \<le> k" for k
  proof -
    have "(2::int) ^ 5 \<le> 2 ^ k"
      using that by (intro power_increasing) simp_all
    then have "p div 2 ^ k \<le> p div 2 ^ 5"
      using assms by (intro zdiv_mono2) simp_all
    also have "\<dots> < 2 ^ 25" using assms by simp
    finally have "drop_bit k p < 2 ^ 25" by (simp add: drop_bit_eq_div)
    moreover have "0 \<le> drop_bit k p" using assms by simp
    ultimately show ?thesis by simp
  qed
  have d25: "drop_bit 25 p AND 31 = drop_bit 25 p"
  proof -
    have "drop_bit 25 p < 2 ^ 5" using assms by (simp add: drop_bit_eq_div)
    moreover have "0 \<le> drop_bit 25 p" using assms by simp
    moreover have m: "(31::int) = mask 5" by (simp add: mask_eq_exp_minus_1)
    ultimately show ?thesis unfolding m by (simp add: take_bit_eq_mask[symmetric] take_bit_int_eq_self)
  qed
  show ?thesis
    unfolding u
    using r[of 25] r[of 20] r[of 15] r[of 10] r[of 5]
      slice_join[of 20 p] slice_join[of 15 p] slice_join[of 10 p] slice_join[of 5 p] slice_join[of 0 p]
    by (simp add: step_0 d25 step_small)
qed


lemma checksum_verifies_any:
  "bech32_polymod (bech32_hrp_expand hrp @ data @ bech32_create_checksum hrp data) = 1"
proof -
  define c where "c = foldl polymod_step 1 (bech32_hrp_expand hrp @ data)"
  define z where "z = foldl polymod_step c [0, 0, 0, 0, 0, 0]"
  define p where "p = z XOR 1"
  have zr: "0 \<le> z \<and> z < 2 ^ 30"
    unfolding z_def using step_zero_range by simp
  have pr: "0 \<le> p" "p < 2 ^ 30"
  proof -
    show "0 \<le> p" using zr by (simp add: p_def)
    have "z XOR 1 < 2 ^ 30" using zr by (intro XOR_upper) simp_all
    then show "p < 2 ^ 30" by (simp add: p_def)
  qed
  have cs: "bech32_create_checksum hrp data = map (\<lambda>i. drop_bit (5 * (5 - i)) p AND 31) [0..<6]"
    by (simp add: bech32_create_checksum_def Let_def bech32_polymod_def p_def z_def c_def)
  have "bech32_polymod (bech32_hrp_expand hrp @ data @ bech32_create_checksum hrp data)
      = foldl polymod_step c (bech32_create_checksum hrp data)"
    by (simp add: bech32_polymod_def c_def)
  also have "\<dots> = foldl polymod_step c (replicate (length (bech32_create_checksum hrp data)) 0)
      XOR foldl polymod_step 0 (bech32_create_checksum hrp data)"
    by (rule foldl_step_zeros)
  also have "foldl polymod_step 0 (bech32_create_checksum hrp data) = p"
    unfolding cs by (rule checksum_unpack[OF pr])
  also have "replicate (length (bech32_create_checksum hrp data)) (0::int) = [0, 0, 0, 0, 0, 0]"
    by (simp add: cs numeral_eq_Suc)
  finally have "bech32_polymod (bech32_hrp_expand hrp @ data @ bech32_create_checksum hrp data)
      = z XOR p"
    unfolding z_def .
  moreover have "z XOR p = 1"
    unfolding p_def by (simp add: xor.assoc[symmetric])
  ultimately show ?thesis by simp
qed

section \<open>Regrouping bits keeps the number written\<close>

lemma val_Nil: "val b n [] = n" by (simp add: val_def)
lemma val_Cons: "val b n (x # xs) = val b (push_bit b n OR x) xs" by (simp add: val_def)
lemma val_append: "val b n (xs @ ys) = val b (val b n xs) ys" by (simp add: val_def)

lemma maxv_mask: "push_bit t 1 - 1 = (mask t :: int)"
  by (simp add: mask_eq_exp_minus_1 push_bit_of_1)

lemma and_mask_take: "(x::int) AND mask t = take_bit t x"
  by (simp add: take_bit_eq_mask)

lemma emit_spec:
  assumes "0 < t" "m < t"
  shows "\<exists>r. emit acc t (mask t) (k * t + m) ret = Some (m, ret @ r) \<and> length r = k \<and>
           (\<forall>x\<in>set r. 0 \<le> x \<and> x < 2 ^ t) \<and>
           val t V r = push_bit (k * t) V OR drop_bit m (take_bit (k * t + m) acc)"
proof (induction k arbitrary: ret V)
  case 0
  have "emit acc t (mask t) m ret = Some (m, ret)"
    using assms by (subst emit.simps) simp
  moreover have "drop_bit m (take_bit m acc) = 0"
    by (rule bit_eqI) (auto simp: bit_simps)
  ultimately show ?case by (simp add: val_Nil)
next
  case (Suc k)
  let ?d = "take_bit t (drop_bit (k * t + m) acc)"
  have e: "emit acc t (mask t) (Suc k * t + m) ret = emit acc t (mask t) (k * t + m) (ret @ [?d])"
    by (subst emit.simps) (simp add: and_mask_take)
  from Suc[of "ret @ [?d]" "push_bit t V OR ?d"] obtain r where
    r: "emit acc t (mask t) (k * t + m) (ret @ [?d]) = Some (m, (ret @ [?d]) @ r)" "length r = k"
      "\<forall>x\<in>set r. 0 \<le> x \<and> x < 2 ^ t"
      "val t (push_bit t V OR ?d) r = push_bit (k * t) (push_bit t V OR ?d) OR drop_bit m (take_bit (k * t + m) acc)"
    by blast
  have d: "0 \<le> ?d \<and> ?d < 2 ^ t" by (simp add: take_bit_int_less_exp)
  have v: "push_bit (k * t) (push_bit t V OR ?d) OR drop_bit m (take_bit (k * t + m) acc)
     = push_bit (Suc k * t) V OR drop_bit m (take_bit (Suc k * t + m) acc)"
    apply (rule bit_eqI)
    apply (auto simp: bit_simps algebra_simps)
    done
  show ?case
    apply (rule exI[of _ "?d # r"])
    using r d v e by (simp add: val_Cons)
qed


lemma small_bits: "0 \<le> (v::int) \<Longrightarrow> v < 2 ^ f \<Longrightarrow> bit v n \<Longrightarrow> n < f"
  by (metis bit_take_bit_iff take_bit_int_eq_self)

lemma take_bit_eq_bits: "take_bit b (x::int) = take_bit b y \<Longrightarrow> n < b \<Longrightarrow> bit x n = bit y n"
  by (metis bit_take_bit_iff)

lemma regroup_take:
  assumes "take_bit bits (acc::int) = take_bit bits N" "0 \<le> v" "v < 2 ^ f" "bits + f \<le> w"
  shows "take_bit (bits + f) (take_bit w (push_bit f acc OR v)) = take_bit (bits + f) (push_bit f N OR v)"
proof (rule bit_eqI)
  fix n
  show "bit (take_bit (bits + f) (take_bit w (push_bit f acc OR v))) n
      = bit (take_bit (bits + f) (push_bit f N OR v)) n"
    using assms(4) take_bit_eq_bits[OF assms(1), of "n - f"]
    by (auto simp: bit_simps)
qed

lemma regroup_drop:
  assumes "0 \<le> (v::int)" "v < 2 ^ f"
  shows "drop_bit (bits + f) (push_bit f N OR v) = drop_bit bits N"
proof (rule bit_eqI)
  fix n
  show "bit (drop_bit (bits + f) (push_bit f N OR v)) n = bit (drop_bit bits N) n"
    using small_bits[OF assms, of "bits + f + n"]
    by (auto simp: bit_simps algebra_simps)
qed

lemma split_join: "push_bit q (drop_bit (q + m) (x::int)) OR drop_bit m (take_bit (q + m) x) = drop_bit m x"
  by (rule bit_eqI) (auto simp: bit_simps algebra_simps)

lemma in_range_not_rejected: "0 \<le> (v::int) \<Longrightarrow> v < 2 ^ f \<Longrightarrow> \<not> (v < 0 \<or> drop_bit f v \<noteq> 0)"
  by (simp add: drop_bit_eq_div)

lemma convert_loop_spec:
  assumes "0 < t" "\<forall>v\<in>set data. 0 \<le> v \<and> v < 2 ^ f"
    and "bits < t" "take_bit bits acc = take_bit bits N" "val t 0 ret = drop_bit bits N"
    and "\<forall>x\<in>set ret. 0 \<le> x \<and> x < 2 ^ t"
  shows "\<exists>acc' bits' ret'.
      convert_loop f t (mask t) (mask (f + t - 1)) data acc bits ret = Some (Inr (acc', bits', ret')) \<and>
      bits' < t \<and> take_bit bits' acc' = take_bit bits' (val f N data) \<and>
      val t 0 ret' = drop_bit bits' (val f N data) \<and> (\<forall>x\<in>set ret'. 0 \<le> x \<and> x < 2 ^ t) \<and>
      length ret' * t + bits' = length ret * t + bits + length data * f"
  using assms(2-)
proof (induction data arbitrary: acc bits ret N)
  case Nil
  then show ?case by (simp add: val_Nil)
next
  case (Cons v data)
  have v: "0 \<le> v" "v < 2 ^ f" using Cons.prems(1) by auto
  define acc1 where "acc1 = take_bit (f + t - 1) (push_bit f acc OR v)"
  define N1 where "N1 = push_bit f N OR v"
  define k where "k = (bits + f) div t"
  define m where "m = (bits + f) mod t"
  have km: "bits + f = k * t + m" by (simp add: k_def m_def)
  have m: "m < t" using assms(1) by (simp add: m_def)
  have w: "bits + f \<le> f + t - 1" using Cons.prems(2) by simp
  have a: "take_bit (bits + f) acc1 = take_bit (bits + f) N1"
    unfolding acc1_def N1_def by (rule regroup_take[OF Cons.prems(3) v w])
  have b: "take_bit m acc1 = take_bit m N1"
  proof -
    have "m \<le> bits + f" by (simp add: km)
    then have "take_bit m x = take_bit m (take_bit (bits + f) x)" for x :: int
      by (simp add: min_def)
    with a show ?thesis by metis
  qed
  obtain r where r: "emit acc1 t (mask t) (k * t + m) ret = Some (m, ret @ r)" "length r = k"
      "\<forall>x\<in>set r. 0 \<le> x \<and> x < 2 ^ t"
      "val t (val t 0 ret) r = push_bit (k * t) (val t 0 ret) OR drop_bit m (take_bit (k * t + m) acc1)"
    using emit_spec[OF assms(1) m, of acc1 k ret "val t 0 ret"] by blast
  have c: "val t 0 (ret @ r) = drop_bit m N1"
  proof -
    have "val t 0 (ret @ r) = push_bit (k * t) (drop_bit bits N) OR drop_bit m (take_bit (k * t + m) acc1)"
      using r(4) Cons.prems(4) by (simp add: val_append)
    also have "take_bit (k * t + m) acc1 = take_bit (k * t + m) N1"
      using a by (simp add: km)
    also have "drop_bit bits N = drop_bit (k * t + m) N1"
      unfolding N1_def km[symmetric] by (rule regroup_drop[OF v, symmetric])
    finally show ?thesis by (simp add: split_join)
  qed
  have d: "\<forall>x\<in>set (ret @ r). 0 \<le> x \<and> x < 2 ^ t"
    using r(3) Cons.prems(5) by auto
  have d1: "\<forall>v\<in>set data. 0 \<le> v \<and> v < 2 ^ f" using Cons.prems(1) by simp
  from Cons.IH[OF d1 m b c d] obtain acc' bits' ret' where
    ih: "convert_loop f t (mask t) (mask (f + t - 1)) data acc1 m (ret @ r) = Some (Inr (acc', bits', ret'))"
      "bits' < t" "take_bit bits' acc' = take_bit bits' (val f N1 data)"
      "val t 0 ret' = drop_bit bits' (val f N1 data)" "\<forall>x\<in>set ret'. 0 \<le> x \<and> x < 2 ^ t"
      "length ret' * t + bits' = length (ret @ r) * t + m + length data * f"
    by blast
  have step: "convert_loop f t (mask t) (mask (f + t - 1)) (v # data) acc bits ret
      = convert_loop f t (mask t) (mask (f + t - 1)) data acc1 m (ret @ r)"
  proof -
    have e: "(push_bit f acc OR v) AND mask (f + t - 1) = acc1"
      by (simp only: acc1_def and_mask_take)
    show ?thesis
      unfolding convert_loop.simps(2) Let_def e km
      using in_range_not_rejected[OF v] r(1) by simp
  qed
  have len: "length (ret @ r) * t + m + length data * f = length ret * t + bits + length (v # data) * f"
    using r(2) km by (simp add: algebra_simps)
  show ?case
    using ih step len by (simp add: val_Cons N1_def)
qed


lemma val_snoc: "val b n (xs @ [x]) = push_bit b (val b n xs) OR x"
  by (simp add: val_append val_Cons val_Nil)

lemma digit_low: "0 \<le> (x::int) \<Longrightarrow> x < 2 ^ b \<Longrightarrow> take_bit b (push_bit b a OR x) = x"
  by (rule bit_eqI) (auto simp: bit_simps dest: small_bits)

lemma digit_high: "0 \<le> (x::int) \<Longrightarrow> x < 2 ^ b \<Longrightarrow> drop_bit b (push_bit b a OR x) = a"
  by (rule bit_eqI) (auto simp: bit_simps dest: small_bits)

lemma val_inj:
  assumes "length xs = length ys" "\<forall>x\<in>set xs. 0 \<le> x \<and> x < 2 ^ b" "\<forall>x\<in>set ys. 0 \<le> x \<and> x < 2 ^ b"
    and "val b n xs = val b n ys"
  shows "xs = ys"
  using assms
proof (induction xs arbitrary: ys rule: rev_induct)
  case Nil
  then show ?case by simp
next
  case (snoc x xs)
  from snoc.prems(1) obtain y ys' where ys: "ys = ys' @ [y]"
    by (cases ys rule: rev_cases) auto
  have x: "0 \<le> x" "x < 2 ^ b" and y: "0 \<le> y" "y < 2 ^ b"
    using snoc.prems(2,3) ys by auto
  have e: "push_bit b (val b n xs) OR x = push_bit b (val b n ys') OR y"
    using snoc.prems(4) by (simp add: ys val_snoc)
  have "x = y"
    using arg_cong[OF e, of "take_bit b"] by (simp only: digit_low[OF x] digit_low[OF y])
  moreover have "val b n xs = val b n ys'"
    using arg_cong[OF e, of "drop_bit b"] by (simp only: digit_high[OF x] digit_high[OF y])
  then have "xs = ys'"
    using snoc.IH[of ys'] snoc.prems(1-3) ys by simp
  ultimately show ?case by (simp add: ys)
qed

lemma pad_join:
  assumes "take_bit b (acc::int) = take_bit b N" "b \<le> t"
  shows "push_bit t (drop_bit b N) OR take_bit t (push_bit (t - b) acc) = push_bit (t - b) N"
proof (rule bit_eqI)
  fix n
  show "bit (push_bit t (drop_bit b N) OR take_bit t (push_bit (t - b) acc)) n = bit (push_bit (t - b) N) n"
  proof (cases "t \<le> n")
    case True
    then have "n - (t - b) = b + (n - t)" using assms(2) by arith
    with True show ?thesis by (auto simp: bit_simps)
  next
    case False
    then have "t - b \<le> n \<Longrightarrow> n - (t - b) < b" using assms(2) by arith
    with False take_bit_eq_bits[OF assms(1), of "n - (t - b)"] show ?thesis
      by (auto simp: bit_simps)
  qed
qed

lemma convertbits_pad:
  assumes "0 < t" "\<forall>v\<in>set data. 0 \<le> v \<and> v < 2 ^ f"
  shows "\<exists>out p. convertbits data f t True = Some (Inr (Some out)) \<and> p < t \<and>
           length out * t = length data * f + p \<and> val t 0 out = push_bit p (val f 0 data) \<and>
           (\<forall>x\<in>set out. 0 \<le> x \<and> x < 2 ^ t)"
proof -
  have "\<exists>acc' bits' ret'.
      convert_loop f t (mask t) (mask (f + t - 1)) data 0 0 [] = Some (Inr (acc', bits', ret')) \<and>
      bits' < t \<and> take_bit bits' acc' = take_bit bits' (val f 0 data) \<and>
      val t 0 ret' = drop_bit bits' (val f 0 data) \<and> (\<forall>x\<in>set ret'. 0 \<le> x \<and> x < 2 ^ t) \<and>
      length ret' * t + bits' = length data * f"
    using convert_loop_spec[where acc=0 and bits=0 and N=0 and ret="[]", OF assms] assms(1)
    by (simp add: val_Nil)
  then obtain acc' bits' ret' where
    l: "convert_loop f t (mask t) (mask (f + t - 1)) data 0 0 [] = Some (Inr (acc', bits', ret'))"
      "bits' < t" "take_bit bits' acc' = take_bit bits' (val f 0 data)"
      "val t 0 ret' = drop_bit bits' (val f 0 data)" "\<forall>x\<in>set ret'. 0 \<le> x \<and> x < 2 ^ t"
      "length ret' * t + bits' = length data * f"
    by auto
  have nz: "f + t \<noteq> 0" using assms(1) by simp
  show ?thesis
  proof (cases "bits' = 0")
    case True
    have "convertbits data f t True = Some (Inr (Some ret'))"
      unfolding convertbits_def Let_def maxv_mask using l(1) nz True by simp
    with l True show ?thesis
      by (intro exI[of _ ret'] exI[of _ 0]) simp
  next
    case False
    let ?x = "take_bit t (push_bit (t - bits') acc')"
    have "convertbits data f t True = Some (Inr (Some (ret' @ [?x])))"
      unfolding convertbits_def Let_def maxv_mask using l(1) nz False by (simp add: and_mask_take)
    moreover have "val t 0 (ret' @ [?x]) = push_bit (t - bits') (val f 0 data)"
      unfolding val_snoc l(4) using l(2) by (intro pad_join[OF l(3)]) simp
    moreover have "0 \<le> ?x \<and> ?x < 2 ^ t" by (simp add: take_bit_int_less_exp)
    moreover have "length (ret' @ [?x]) * t = length data * f + (t - bits')"
      using l(6) l(2) by (simp add: algebra_simps)
    ultimately show ?thesis
      using l(5) False assms(1)
      by (intro exI[of _ "ret' @ [?x]"] exI[of _ "t - bits'"]) auto
  qed
qed

lemma unpad_zero:
  assumes "take_bit p (acc::int) = take_bit p (push_bit p M)"
  shows "take_bit 8 (push_bit (8 - p) acc) = 0"
proof (rule bit_eqI)
  fix n
  show "bit (take_bit 8 (push_bit (8 - p) acc)) n = bit (0::int) n"
    using take_bit_eq_bits[OF assms, of "n - (8 - p)"]
    by (auto simp: bit_simps)
qed

lemma convertbits_unpad:
  assumes "\<forall>v\<in>set fives. 0 \<le> v \<and> v < 2 ^ 5" "length fives * 5 = n * 8 + p" "p < 5"
    and "val 5 0 fives = push_bit p M"
  shows "\<exists>ret. convertbits fives 5 8 False = Some (Inr (Some ret)) \<and> length ret = n \<and>
           val 8 0 ret = M \<and> (\<forall>x\<in>set ret. 0 \<le> x \<and> x < 2 ^ 8)"
proof -
  have t: "(0::nat) < 8" by simp
  have "\<exists>acc' bits' ret'.
      convert_loop 5 8 (mask 8) (mask (5 + 8 - 1)) fives 0 0 [] = Some (Inr (acc', bits', ret')) \<and>
      bits' < 8 \<and> take_bit bits' acc' = take_bit bits' (val 5 0 fives) \<and>
      val 8 0 ret' = drop_bit bits' (val 5 0 fives) \<and> (\<forall>x\<in>set ret'. 0 \<le> x \<and> x < 2 ^ 8) \<and>
      length ret' * 8 + bits' = length fives * 5"
    using convert_loop_spec[where acc=0 and bits=0 and N=0 and ret="[]", OF t assms(1)]
    by (simp add: val_Nil)
  then obtain acc' bits' ret' where
    l: "convert_loop 5 8 (mask 8) (mask (5 + 8 - 1)) fives 0 0 [] = Some (Inr (acc', bits', ret'))"
      "bits' < 8" "take_bit bits' acc' = take_bit bits' (val 5 0 fives)"
      "val 8 0 ret' = drop_bit bits' (val 5 0 fives)" "\<forall>x\<in>set ret'. 0 \<le> x \<and> x < 2 ^ 8"
      "length ret' * 8 + bits' = length fives * 5"
    by auto
  have e: "length ret' * 8 + bits' = n * 8 + p" using l(6) assms(2) by simp
  then have "(length ret' * 8 + bits') mod 8 = (n * 8 + p) mod 8" by simp
  then have b: "bits' = p" using l(2) assms(3) by simp
  with e have n: "length ret' = n" by simp
  have z: "push_bit (8 - bits') acc' AND mask 8 = 0"
    unfolding and_mask_take b using l(3) unfolding b assms(4) by (rule unpad_zero)
  have "convertbits fives 5 8 False = Some (Inr (Some ret'))"
    unfolding convertbits_def Let_def maxv_mask using l(1) z b assms(3) by simp
  moreover have "val 8 0 ret' = M"
    unfolding l(4) b assms(4) by (simp add: drop_bit_push_bit)
  ultimately show ?thesis using n l(5) by blast
qed

section \<open>Encoding and decoding a plain Bech32 string\<close>

lemma charset_at_ok: "0 \<le> d \<Longrightarrow> d \<le> 31 \<Longrightarrow> charset_at d = Inr (CHARSET ! nat d)"
  by (simp add: charset_at_def Let_def CHARSET_codes)

lemma charset_map_ok:
  "\<forall>d\<in>set ds. 0 \<le> d \<and> d \<le> 31 \<Longrightarrow> charset_map ds = Inr (map (\<lambda>d. CHARSET ! nat d) ds)"
  by (induction ds) (simp_all add: charset_at_ok)

lemma CHARSET_length: "length CHARSET = 32"
  by (simp add: CHARSET_codes)

lemma CHARSET_distinct: "distinct CHARSET"
  by (simp add: CHARSET_codes)

lemma CHARSET_chars: "c \<in> set CHARSET \<Longrightarrow> 33 \<le> c \<and> c \<le> 126 \<and> lower_ch c = c \<and> c \<noteq> 49"
  by (auto simp: CHARSET_codes lower_ch_def)

lemma find_ch_nth: "distinct cs \<Longrightarrow> i < length cs \<Longrightarrow> find_ch cs (cs ! i) = int i"
proof (induction cs arbitrary: i)
  case Nil
  then show ?case by simp
next
  case (Cons x cs)
  show ?case
  proof (cases i)
    case 0
    then show ?thesis by simp
  next
    case (Suc j)
    with Cons.prems have j: "j < length cs" "distinct cs" "cs ! j \<noteq> x" by auto
    from Cons.IH[OF j(2) j(1)] j(3) Suc show ?thesis by auto
  qed
qed

lemma find_ch_CHARSET_nth: "0 \<le> d \<Longrightarrow> d \<le> 31 \<Longrightarrow> find_ch CHARSET (CHARSET ! nat d) = d"
  using find_ch_nth[OF CHARSET_distinct, of "nat d"] by (simp add: CHARSET_length)

lemma CHARSET_nth_in: "0 \<le> d \<Longrightarrow> d \<le> 31 \<Longrightarrow> CHARSET ! nat d \<in> set CHARSET"
  by (simp add: CHARSET_length)

lemma and_31_range: "0 \<le> (x::int) AND 31 \<and> x AND 31 \<le> 31"
proof -
  have m: "(31::int) = mask 5" by (simp add: mask_eq_exp_minus_1)
  have e: "x AND 31 = take_bit 5 x" unfolding m by (simp add: take_bit_eq_mask)
  show ?thesis using take_bit_int_less_exp[of 5 x] by (simp add: e)
qed

lemma checksum_shape:
  "length (bech32_create_checksum hrp data) = 6 \<and>
   (\<forall>d\<in>set (bech32_create_checksum hrp data). 0 \<le> d \<and> d \<le> 31)"
  using and_31_range by (auto simp: bech32_create_checksum_def Let_def)

lemma bech32_roundtrip:
  assumes "hrp \<noteq> []" "lower hrp = hrp" "length hrp \<le> 83" "\<forall>c\<in>set hrp. 33 \<le> c \<and> c \<le> 126"
    and "\<forall>d\<in>set data. 0 \<le> d \<and> d \<le> 31"
  shows "\<exists>s. bech32_encode hrp data = Inr s \<and> bech32_decode s = (Some hrp, Some data)"
proof -
  define combined where "combined = data @ bech32_create_checksum hrp data"
  define cs where "cs = map (\<lambda>d. CHARSET ! nat d) combined"
  define s where "s = hrp @ 49 # cs"
  have cr: "\<forall>d\<in>set combined. 0 \<le> d \<and> d \<le> 31"
    using assms(5) checksum_shape[of hrp data] by (auto simp: combined_def)
  have enc: "bech32_encode hrp data = Inr s"
    by (simp add: bech32_encode_def Let_def combined_def[symmetric] charset_map_ok[OF cr]
        cs_def s_def py_str_def)
  have csin: "\<forall>c\<in>set cs. c \<in> set CHARSET"
    using cr by (auto simp: cs_def CHARSET_nth_in)
  have lcs: "lower cs = cs"
    using csin CHARSET_chars by (auto simp: lower_def map_idI)
  have ls: "lower s = s"
    using assms(2) lcs by (simp add: s_def lower_def lower_ch_def)
  have r: "\<forall>x\<in>set s. 33 \<le> x \<and> x \<le> 126"
    using assms(4) csin CHARSET_chars by (auto simp: s_def)
  have "49 \<notin> set cs" using csin CHARSET_chars by blast
  then have pos: "rfind s 49 = int (length hrp)"
    unfolding s_def by (rule rfind_append_absent)
  have len: "length cs = length data + 6"
    by (simp add: cs_def combined_def checksum_shape)
  have dr: "drop (length hrp + 1) (lower s) = cs" unfolding ls by (simp add: s_def)
  have tk: "take (length hrp) (lower s) = hrp" unfolding ls by (simp add: s_def)
  have fm: "map (find_ch CHARSET) cs = combined"
    using cr by (auto simp: cs_def find_ch_CHARSET_nth intro: map_idI)
  have ver: "bech32_verify_checksum hrp combined"
    by (simp add: bech32_verify_checksum_def combined_def checksum_verifies_any)
  have "bech32_decode s = (Some (take (length hrp) (lower s)),
      Some (take (length s - length hrp - 7) (map (find_ch CHARSET) (drop (length hrp + 1) (lower s)))))"
  proof (rule bech32_decode_SomeI[OF r _ pos])
    show "lower s = s \<or> upper s = s" using ls by simp
    show "1 \<le> length hrp" using assms(1) by (cases hrp) auto
    show "length hrp \<le> 83" by (rule assms(3))
    show "length hrp + 7 \<le> length s" using len by (simp add: s_def)
    show "\<forall>x\<in>set (drop (length hrp + 1) (lower s)). x \<in> set CHARSET"
      unfolding dr by (rule csin)
    show "bech32_verify_checksum (take (length hrp) (lower s))
        (map (find_ch CHARSET) (drop (length hrp + 1) (lower s)))"
      unfolding dr tk fm by (rule ver)
  qed
  moreover have "take (length s - length hrp - 7) combined = data"
    using len by (simp add: s_def combined_def)
  ultimately have "bech32_decode s = (Some hrp, Some data)"
    unfolding dr tk fm by simp
  with enc show ?thesis by blast
qed


lemma convertbits_there_and_back:
  assumes "\<forall>b\<in>set bytes. 0 \<le> b \<and> b \<le> 255"
  shows "\<exists>fives. convertbits bytes 8 5 True = Some (Inr (Some fives)) \<and>
           (\<forall>x\<in>set fives. 0 \<le> x \<and> x \<le> 31) \<and>
           convertbits fives 5 8 False = Some (Inr (Some bytes))"
proof -
  have r: "\<forall>v\<in>set bytes. 0 \<le> v \<and> v < 2 ^ 8" using assms by auto
  have t: "(0::nat) < 5" by simp
  from convertbits_pad[OF t r] obtain fives p where
    f: "convertbits bytes 8 5 True = Some (Inr (Some fives))" "p < 5"
      "length fives * 5 = length bytes * 8 + p" "val 5 0 fives = push_bit p (val 8 0 bytes)"
      "\<forall>x\<in>set fives. 0 \<le> x \<and> x < 2 ^ 5"
    by blast
  from convertbits_unpad[OF f(5) f(3) f(2) f(4)] obtain ret where
    u: "convertbits fives 5 8 False = Some (Inr (Some ret))" "length ret = length bytes"
      "val 8 0 ret = val 8 0 bytes" "\<forall>x\<in>set ret. 0 \<le> x \<and> x < 2 ^ 8"
    by blast
  have "ret = bytes" by (rule val_inj[OF u(2) u(4) r u(3)])
  moreover have "\<forall>x\<in>set fives. 0 \<le> x \<and> x \<le> 31" using f(5) by auto
  ultimately show ?thesis using f(1) u(1) by blast
qed

section \<open>Changed values change the checksum\<close>

lemma orbit_check:
  "list_all (\<lambda>x. 32 \<le> x) (tl (orbit 85 1))"
  "list_all (\<lambda>x. 32 \<le> x) (tl (orbit 85 2))"
  "list_all (\<lambda>x. 32 \<le> x) (tl (orbit 85 3))"
  by code_simp+

lemma xor_zero_eq: "(a::int) XOR b = 0 \<Longrightarrow> a = b"
proof -
  assume "a XOR b = 0"
  then have "(a XOR b) XOR b = 0 XOR b" by simp
  then show "a = b" by (simp add: xor.assoc)
qed

lemma xor_cancel_left: "(a::int) XOR b = a XOR c \<Longrightarrow> b = c"
proof -
  assume "a XOR b = a XOR c"
  then have "a XOR (a XOR b) = a XOR (a XOR c)" by simp
  then show "b = c" by (simp add: xor.assoc[symmetric])
qed

lemma step_value: "polymod_step c v = polymod_step c 0 XOR v"
  by (simp add: step_gmix xor.assoc xor.commute)

lemma step_range:
  assumes "0 \<le> v" "v < 2 ^ 30"
  shows "0 \<le> polymod_step c v \<and> polymod_step c v < 2 ^ 30"
proof -
  have "polymod_step c 0 XOR v < 2 ^ 30"
    using step_zero_range[of c] assms by (intro XOR_upper) simp_all
  then show ?thesis
    using step_zero_range[of c] assms by (simp add: step_value[of c v])
qed

lemma gmix_low_zero:
  assumes "gmix t AND 31 = 0"
  shows "\<not> bit t 0 \<and> \<not> bit t 1 \<and> \<not> bit t 2 \<and> \<not> bit t 3 \<and> \<not> bit t 4"
  using assms unfolding gmix_unfold
  by (cases "bit t 0"; cases "bit t 1"; cases "bit t 2"; cases "bit t 3"; cases "bit t 4") simp_all

lemma step_zero_inj:
  assumes "0 \<le> c" "c < 2 ^ 30" "polymod_step c 0 = 0"
  shows "c = 0"
proof -
  let ?t = "drop_bit 25 c"
  have "push_bit 5 (take_bit 25 c) XOR gmix ?t = 0"
    using assms(3) by (simp add: step_gmix)
  then have e: "push_bit 5 (take_bit 25 c) = gmix ?t"
    by (rule xor_zero_eq)
  have "gmix ?t AND 31 = 0"
  proof -
    have m: "(31::int) = mask 5" by (simp add: mask_eq_exp_minus_1)
    have "push_bit 5 (take_bit 25 c) AND mask 5 = 0"
      by (rule bit_eqI) (auto simp: bit_simps)
    then show ?thesis by (simp add: e m)
  qed
  from gmix_low_zero[OF this] have b: "\<not> bit ?t 0" "\<not> bit ?t 1" "\<not> bit ?t 2" "\<not> bit ?t 3" "\<not> bit ?t 4"
    by simp_all
  then have g: "gmix ?t = 0" by (simp add: gmix_unfold)
  have lo: "take_bit 25 c = 0"
    using e g by simp
  have tr: "take_bit 5 ?t = ?t"
  proof -
    have "c div 2 ^ 25 < 2 ^ 5" using assms(1,2) by simp
    then show ?thesis using assms(1) by (simp add: take_bit_int_eq_self drop_bit_eq_div)
  qed
  have "take_bit 5 ?t = 0"
  proof (rule bit_eqI)
    fix n :: nat
    have "n < 5 \<Longrightarrow> n = 0 \<or> n = 1 \<or> n = 2 \<or> n = 3 \<or> n = 4" by arith
    with b show "bit (take_bit 5 ?t) n = bit (0::int) n"
      by (auto simp: bit_take_bit_iff)
  qed
  with tr have hi: "?t = 0" by simp
  from bits_ident[of 25 c] lo hi show ?thesis by simp
qed

lemma zeros_inj:
  "0 \<le> c \<Longrightarrow> c < 2 ^ 30 \<Longrightarrow> foldl polymod_step c (replicate n 0) = 0 \<Longrightarrow> c = 0"
proof (induction n arbitrary: c)
  case 0
  then show ?case by simp
next
  case (Suc n)
  have "polymod_step c 0 = 0"
    using Suc.IH[of "polymod_step c 0"] Suc.prems(3) step_zero_range[of c] by simp
  with Suc.prems(1,2) show ?case by (rule step_zero_inj)
qed

lemma map2_xor_self: "map2 (XOR) S S = replicate (length S) (0::int)"
  by (induction S) simp_all

lemma suffix_inj:
  assumes "0 \<le> c1" "c1 < 2 ^ 30" "0 \<le> c2" "c2 < 2 ^ 30"
    and "foldl polymod_step c1 S = foldl polymod_step c2 S"
  shows "c1 = c2"
proof -
  have "foldl polymod_step (c1 XOR c2) (replicate (length S) 0) = 0"
    using foldl_step_xor[of S S c1 c2] assms(5) by (simp add: map2_xor_self)
  moreover have "0 \<le> c1 XOR c2" using assms(1,3) by simp
  moreover have "c1 XOR c2 < 2 ^ 30" using assms(1,2,4) by (intro XOR_upper)
  ultimately have "c1 XOR c2 = 0" by (rule zeros_inj[rotated 2])
  then show ?thesis by (rule xor_zero_eq)
qed

lemma orbit_nth: "j < k \<Longrightarrow> orbit k c ! j = foldl polymod_step c (replicate j 0)"
proof (induction k arbitrary: c j)
  case 0
  then show ?case by simp
next
  case (Suc k)
  then show ?case by (cases j) simp_all
qed

lemma orbit_big:
  assumes "a = 1 \<or> a = 2 \<or> a = 3" "1 \<le> j" "j \<le> 84"
  shows "32 \<le> foldl polymod_step a (replicate j 0)"
proof -
  have "list_all (\<lambda>x. 32 \<le> x) (tl (orbit 85 a))"
    using assms(1) orbit_check by auto
  moreover have "length (orbit k c) = k" for k c
    by (induction k arbitrary: c) simp_all
  ultimately have "32 \<le> tl (orbit 85 a) ! (j - 1)"
    using assms(2,3) by (simp add: list_all_length)
  then have "32 \<le> orbit 85 a ! j"
    using assms(2,3) \<open>\<And>k c. length (orbit k c) = k\<close>[of 85 a] by (simp add: nth_tl)
  then show ?thesis using assms(3) by (simp add: orbit_nth)
qed

lemma data_change_detected:
  assumes "0 \<le> v" "v < 2 ^ 30" "0 \<le> v'" "v' < 2 ^ 30"
    and "foldl polymod_step c0 (v # S) = foldl polymod_step c0 (v' # S)"
  shows "v = v'"
proof -
  have "foldl polymod_step (polymod_step c0 v) S = foldl polymod_step (polymod_step c0 v') S"
    using assms(5) by simp
  with step_range[OF assms(1,2), of c0] step_range[OF assms(3,4), of c0]
  have "polymod_step c0 v = polymod_step c0 v'"
    by (blast intro: suffix_inj)
  then have "polymod_step c0 0 XOR v = polymod_step c0 0 XOR v'"
    by (simp only: step_value[symmetric])
  then show ?thesis by (rule xor_cancel_left)
qed

lemma foldl_zero_zeros: "foldl polymod_step 0 (replicate n 0) = 0"
  by (induction n) (simp_all add: step_0)

lemma small_xor:
  assumes "a = 1 \<or> a = 2 \<or> a = (3::int)" "b = 1 \<or> b = 2 \<or> b = (3::int)"
  shows "a XOR b = 0 \<or> a XOR b = 1 \<or> a XOR b = 2 \<or> a XOR b = 3"
  using assms by auto

lemma hrp_change_detected:
  assumes "hx = 1 \<or> hx = 2 \<or> hx = 3" "hx' = 1 \<or> hx' = 2 \<or> hx' = 3"
    and "0 \<le> lx" "lx < 32" "0 \<le> lx'" "lx' < 32" "length M \<le> 83"
    and "foldl polymod_step c0 (hx # M @ lx # S) = foldl polymod_step c0 (hx' # M @ lx' # S)"
  shows "hx = hx' \<and> lx = lx'"
proof -
  define A where "A = foldl polymod_step (polymod_step c0 hx) M"
  define A' where "A' = foldl polymod_step (polymod_step c0 hx') M"
  define a where "a = hx XOR hx'"
  define b where "b = lx XOR lx'"
  define n where "n = length M"
  have e1: "foldl polymod_step (polymod_step A lx) S = foldl polymod_step (polymod_step A' lx') S"
    using assms(8) by (simp add: A_def A'_def)
  have r1: "0 \<le> polymod_step A lx \<and> polymod_step A lx < 2 ^ 30"
    using assms(3,4) by (intro step_range) simp_all
  have r2: "0 \<le> polymod_step A' lx' \<and> polymod_step A' lx' < 2 ^ 30"
    using assms(5,6) by (intro step_range) simp_all
  have e2: "polymod_step A lx = polymod_step A' lx'"
    using r1 r2 e1 by (blast intro: suffix_inj)
  have e3: "polymod_step (A XOR A') b = 0"
    unfolding b_def step_xor e2 by simp
  have "polymod_step c0 hx XOR polymod_step c0 hx' = a"
    using step_xor[of c0 c0 hx hx'] by (simp add: step_0 a_def)
  then have e4: "A XOR A' = foldl polymod_step a (replicate n 0)"
    using foldl_step_xor[of M M "polymod_step c0 hx" "polymod_step c0 hx'"]
    by (simp add: map2_xor_self A_def A'_def n_def)
  have "replicate (Suc n) (0::int) = replicate n 0 @ [0]"
    by (simp add: replicate_append_same)
  then have "foldl polymod_step a (replicate (Suc n) 0) = polymod_step (A XOR A') 0"
    unfolding e4 by (simp only: foldl_append foldl.simps)
  also have "\<dots> XOR b = 0"
    using e3 by (simp add: step_value[of _ b])
  finally have e5: "foldl polymod_step a (replicate (Suc n) 0) = b"
    by (rule xor_zero_eq)
  have br: "b < 32"
  proof -
    have "lx XOR lx' < 2 ^ 5" using assms(3-6) by (intro XOR_upper) simp_all
    then show ?thesis by (simp add: b_def)
  qed
  have a0: "a = 0"
  proof (rule ccontr)
    assume "a \<noteq> 0"
    with small_xor[OF assms(1,2)] have "a = 1 \<or> a = 2 \<or> a = 3" by (simp add: a_def)
    then have "32 \<le> foldl polymod_step a (replicate (Suc n) 0)"
      using assms(7) by (intro orbit_big) (simp_all add: n_def)
    with e5 br show False by simp
  qed
  then have "b = 0" using e5 by (simp add: foldl_zero_zeros step_0)
  with a0 show ?thesis
    unfolding a_def b_def by (blast dest: xor_zero_eq)
qed

lemma hi_range: "33 \<le> x \<Longrightarrow> x \<le> 126 \<Longrightarrow>
    drop_bit 5 (int x) = 1 \<or> drop_bit 5 (int x) = 2 \<or> drop_bit 5 (int x) = 3"
proof -
  assume a: "33 \<le> x" "x \<le> 126"
  have "32 * 1 \<le> int x" "int x < 32 * 4" using a by simp_all
  then have "1 \<le> int x div 32" "int x div 32 < 4"
    by (simp_all add: zdiv_mono1 pos_imp_zdiv_pos_iff div_less_iff_less_mult)
  then show ?thesis by (simp add: drop_bit_eq_div) arith
qed

lemma char_split: "drop_bit 5 (int x) = drop_bit 5 (int y) \<Longrightarrow> int x AND 31 = int y AND 31 \<Longrightarrow> x = y"
proof -
  assume h: "drop_bit 5 (int x) = drop_bit 5 (int y)" and l: "int x AND 31 = int y AND 31"
  have m: "(31::int) = mask 5" by (simp add: mask_eq_exp_minus_1)
  from l have t: "take_bit 5 (int x) = take_bit 5 (int y)"
    unfolding m by (simp only: take_bit_eq_mask)
  have "int x = push_bit 5 (drop_bit 5 (int x)) + take_bit 5 (int x)"
    by (simp only: bits_ident)
  also have "\<dots> = push_bit 5 (drop_bit 5 (int y)) + take_bit 5 (int y)"
    by (simp only: h t)
  also have "\<dots> = int y"
    by (simp only: bits_ident)
  finally show ?thesis by simp
qed


lemma find_ch_at: "x \<in> set cs \<Longrightarrow> cs ! nat (find_ch cs x) = x"
proof (induction cs)
  case Nil
  then show ?case by simp
next
  case (Cons y cs)
  show ?case
  proof (cases "y = x")
    case True
    then show ?thesis by simp
  next
    case False
    with Cons.prems have m: "x \<in> set cs" by simp
    from find_ch_range[OF m] Cons.IH[OF m] False show ?thesis
      by (simp add: Let_def nat_add_distrib)
  qed
qed

lemma expand_split:
  "bech32_hrp_expand (A @ y # B) @ T =
     map (\<lambda>x. drop_bit 5 (int x)) A @ drop_bit 5 (int y) #
       (map (\<lambda>x. drop_bit 5 (int x)) B @ [0] @ map (\<lambda>x. int x AND 31) A) @ (int y AND 31) #
       (map (\<lambda>x. int x AND 31) B @ T)"
  by (simp add: bech32_hrp_expand_def)

lemma prefix_change_detected:
  assumes "33 \<le> x" "x \<le> 126" "33 \<le> y" "y \<le> 126" "length A + length B < 83"
    and "bech32_polymod (bech32_hrp_expand (A @ x # B) @ T) = 1"
    and "bech32_polymod (bech32_hrp_expand (A @ y # B) @ T) = 1"
  shows "x = y"
proof -
  let ?hi = "\<lambda>x. drop_bit 5 (int x)" and ?lo = "\<lambda>x. int x AND 31"
  let ?M = "map ?hi B @ [0] @ map ?lo A"
  let ?S = "map ?lo B @ T"
  let ?c0 = "foldl polymod_step 1 (map ?hi A)"
  have e: "foldl polymod_step ?c0 (?hi x # ?M @ ?lo x # ?S) = foldl polymod_step ?c0 (?hi y # ?M @ ?lo y # ?S)"
    using assms(6,7) unfolding bech32_polymod_def expand_split foldl_append by simp
  have l: "length ?M \<le> 83" using assms(5) by simp
  have "?hi x = ?hi y \<and> ?lo x = ?lo y"
    using hi_range[OF assms(1,2)] hi_range[OF assms(3,4)] and_31_range[of "int x"] and_31_range[of "int y"] l e
    by (intro hrp_change_detected[where M="?M" and S="?S" and ?c0.0="?c0"]) simp_all
  then show ?thesis by (blast intro: char_split)
qed

lemma symbol_change_detected:
  assumes "x \<in> set CHARSET" "y \<in> set CHARSET"
    and "bech32_polymod (E @ P @ find_ch CHARSET x # S) = 1"
    and "bech32_polymod (E @ P @ find_ch CHARSET y # S) = 1"
  shows "x = y"
proof -
  let ?c0 = "foldl polymod_step 1 (E @ P)"
  have e: "foldl polymod_step ?c0 (find_ch CHARSET x # S) = foldl polymod_step ?c0 (find_ch CHARSET y # S)"
    using assms(3,4) unfolding bech32_polymod_def by simp
  have rx: "0 \<le> find_ch CHARSET x" "find_ch CHARSET x < 2 ^ 30"
    using find_ch_CHARSET[OF assms(1)] by simp_all
  have ry: "0 \<le> find_ch CHARSET y" "find_ch CHARSET y < 2 ^ 30"
    using find_ch_CHARSET[OF assms(2)] by simp_all
  have f: "find_ch CHARSET x = find_ch CHARSET y"
    by (rule data_change_detected[OF rx ry e])
  have "x = CHARSET ! nat (find_ch CHARSET x)"
    by (simp only: find_ch_at[OF assms(1)])
  also have "\<dots> = CHARSET ! nat (find_ch CHARSET y)"
    by (simp only: f)
  also have "\<dots> = y"
    by (simp only: find_ch_at[OF assms(2)])
  finally show ?thesis .
qed


lemma lower_update: "lower (s[i := c]) = (lower s)[i := lower_ch c]"
  by (simp add: lower_def map_update)

lemma lower_nth: "i < length s \<Longrightarrow> lower s ! i = lower_ch (s ! i)"
  by (simp add: lower_def)

section \<open>Concrete runs\<close>

lemma bech32_decode_bc_zero:
  "bech32_decode (py_str ''bc1qqqqqqqqqqqqqqqqqqqqqqqqqqqqqqqqq9e75rs'') =
     (Some (py_str ''bc''), Some (replicate 33 0))"
  by code_simp

lemma bech32_decode_long:
  "bech32_decode (py_str ''a1qqqqqqqqqqqqqqqqqqqqqqqqqqqqqqqqqqqqqqqqqqqqqqqqqqqqqqqqqqqqqqqqqqqqqqqqqqqqqqqqqqqqqqqqqqzlppc9'') = (Some (py_str ''a''), Some (replicate 90 0))"
  by code_simp


lemma encode_bc_zero:
  "encode (py_str ''bc'') 0 (replicate 20 0) =
     Some (Inr (Some (py_str ''bc1qqqqqqqqqqqqqqqqqqqqqqqqqqqqqqqqq9e75rs'')))"
  by code_simp

lemma decode_bc_zero:
  "decode (py_str ''bc'') (py_str ''bc1qqqqqqqqqqqqqqqqqqqqqqqqqqqqqqqqq9e75rs'') =
     Some (Inr (Some 0, Some (replicate 20 0)))"
  by code_simp

section \<open>The published vector for twenty zero bytes\<close>

text \<open>
  Claim C4, as the specification states it: \<^verbatim>\<open>encode("bc", 0, witprog)\<close> for twenty zero
  bytes returns \<^verbatim>\<open>"bc1qqqqqqqqqqqqqqqqqqqqqqqqqqqqqqqqqqqqqc8gma6"\<close>. The code does not
  return that string, which has 37 data characters where twenty bytes with a version
  give 33.
\<close>

theorem encode_bc_zero_not_c8gma6:
  "encode (py_str ''bc'') 0 (replicate 20 0) \<noteq>
     Some (Inr (Some (py_str ''bc1qqqqqqqqqqqqqqqqqqqqqqqqqqqqqqqqqqqqqc8gma6'')))"
  unfolding encode_bc_zero by (simp add: py_str_def)

text \<open>
  Claim C4, amended: \<^verbatim>\<open>encode("bc", 0, witprog)\<close> for twenty zero bytes returns exactly
  \<^verbatim>\<open>"bc1qqqqqqqqqqqqqqqqqqqqqqqqqqqqqqqqq9e75rs"\<close>.
\<close>

theorem encode_bc_zero_vector:
  "encode (py_str ''bc'') 0 (replicate 20 0) =
     Some (Inr (Some (py_str ''bc1qqqqqqqqqqqqqqqqqqqqqqqqqqqqqqqqq9e75rs'')))"
  by (rule encode_bc_zero)

section \<open>The expected prefix is compared as it is given\<close>

text \<open>
  Claim C3, as the specification states it: the expected prefix is case-normalised, so an
  address accepted for a lowercase prefix \<open>h\<close> is accepted, with the same result, for
  the uppercase of \<open>h\<close>. It is not: \<^verbatim>\<open>decode("bc", a)\<close> succeeds and \<^verbatim>\<open>decode("BC", a)\<close>
  returns \<^verbatim>\<open>(None, None)\<close>.
\<close>

theorem decode_uppercase_hrp_rejected:
  "lower (py_str ''bc'') = py_str ''bc'' \<and>
   decode (py_str ''bc'') (py_str ''bc1qqqqqqqqqqqqqqqqqqqqqqqqqqqqqqqqq9e75rs'') =
     Some (Inr (Some 0, Some (replicate 20 0))) \<and>
   decode (upper (py_str ''bc'')) (py_str ''bc1qqqqqqqqqqqqqqqqqqqqqqqqqqqqqqqqq9e75rs'') =
     Some (Inr (None, None))"
proof -
  have "lower (py_str ''bc'') = py_str ''bc''"
    by (simp add: lower_def lower_ch_def py_str_def)
  moreover have "decode (upper (py_str ''bc''))
      (py_str ''bc1qqqqqqqqqqqqqqqqqqqqqqqqqqqqqqqqq9e75rs'') = Some (Inr (None, None))"
    by code_simp
  ultimately show ?thesis
    using decode_bc_zero by simp
qed

text \<open>
  Claim C3, amended: the expected prefix is compared with the decoded (lowercase) prefix
  exactly as it is given. \<^verbatim>\<open>decode(hrp, addr)\<close> returns \<^verbatim>\<open>(None, None)\<close> whenever \<^verbatim>\<open>hrp\<close>
  differs from the prefix that \<^verbatim>\<open>bech32_decode(addr)\<close> returns; in particular, when
  \<^verbatim>\<open>decode(h, addr)\<close> succeeds and the uppercase of \<open>h\<close> differs from \<open>h\<close>, then
  \<^verbatim>\<open>decode(h.upper(), addr)\<close> returns \<^verbatim>\<open>(None, None)\<close>.
\<close>

theorem decode_hrp_compared_exactly:
  "(fst (bech32_decode addr) \<noteq> Some hrp \<longrightarrow> decode hrp addr = Some (Inr (None, None))) \<and>
   (decode h addr = Some (Inr (Some v, Some p)) \<and> upper h \<noteq> h \<longrightarrow>
      decode (upper h) addr = Some (Inr (None, None)))"
proof (intro conjI impI)
  show "decode hrp addr = Some (Inr (None, None))" if "fst (bech32_decode addr) \<noteq> Some hrp"
    using that by (auto simp: decode_def split: prod.splits)
next
  assume a: "decode h addr = Some (Inr (Some v, Some p)) \<and> upper h \<noteq> h"
  have "fst (bech32_decode addr) = Some h"
  proof (rule ccontr)
    assume "fst (bech32_decode addr) \<noteq> Some h"
    then have "decode h addr = Some (Inr (None, None))"
      by (auto simp: decode_def split: prod.splits)
    with a show False by simp
  qed
  with a have "fst (bech32_decode addr) \<noteq> Some (upper h)" by auto
  then show "decode (upper h) addr = Some (Inr (None, None))"
    by (auto simp: decode_def split: prod.splits)
qed

theorem decode_hrp_compared_exactly_witness:
  "fst (bech32_decode (py_str ''bc1qqqqqqqqqqqqqqqqqqqqqqqqqqqqqqqqq9e75rs'')) \<noteq> Some (py_str ''BC'') \<and>
   decode (py_str ''BC'') (py_str ''bc1qqqqqqqqqqqqqqqqqqqqqqqqqqqqqqqqq9e75rs'') = Some (Inr (None, None)) \<and>
   decode (py_str ''bc'') (py_str ''bc1qqqqqqqqqqqqqqqqqqqqqqqqqqqqqqqqq9e75rs'') =
     Some (Inr (Some 0, Some (replicate 20 0))) \<and>
   upper (py_str ''bc'') \<noteq> py_str ''bc'' \<and>
   decode (upper (py_str ''bc'')) (py_str ''bc1qqqqqqqqqqqqqqqqqqqqqqqqqqqqqqqqq9e75rs'') =
     Some (Inr (None, None))"
proof -
  have h1: "fst (bech32_decode (py_str ''bc1qqqqqqqqqqqqqqqqqqqqqqqqqqqqqqqqq9e75rs'')) \<noteq> Some (py_str ''BC'')"
    by code_simp
  have h2: "upper (py_str ''bc'') \<noteq> py_str ''bc''"
    by (simp add: upper_def upper_ch_def py_str_def)
  show ?thesis
    using h1 h2 decode_bc_zero
      decode_hrp_compared_exactly [of "py_str ''bc1qqqqqqqqqqqqqqqqqqqqqqqqqqqqqqqqq9e75rs''"
        "py_str ''BC''" "py_str ''bc''" 0 "replicate 20 0"]
    by simp
qed

section \<open>What a successful \<^verbatim>\<open>bech32_decode\<close> returns\<close>

text \<open>
  Claim C10: whenever \<^verbatim>\<open>bech32_decode(bech)\<close> returns a pair \<^verbatim>\<open>(hrp, data)\<close>, the prefix
  \<^verbatim>\<open>hrp\<close> is non-empty, entirely lowercase, at most 83 characters long with every code
  point in 33..126, and every element of \<^verbatim>\<open>data\<close> is an integer in 0..31.
\<close>

theorem decode_success_shape:
  assumes "bech32_decode bech = (Some hrp, Some data)"
  shows "hrp \<noteq> [] \<and> lower hrp = hrp \<and> length hrp \<le> 83 \<and> (\<forall>c\<in>set hrp. 33 \<le> c \<and> c \<le> 126)
     \<and> (\<forall>d\<in>set data. 0 \<le> d \<and> d \<le> 31)"
proof -
  from bech32_decode_SomeD[OF assms] obtain pos where
    r: "\<forall>x\<in>set bech. 33 \<le> x \<and> x \<le> 126" and p: "1 \<le> pos" "pos \<le> 83" "pos + 7 \<le> length bech"
    and cs: "\<forall>x\<in>set (drop (pos + 1) (lower bech)). x \<in> set CHARSET"
    and h: "hrp = take pos (lower bech)"
    and d: "data = take (length bech - pos - 7) (map (find_ch CHARSET) (drop (pos + 1) (lower bech)))"
    by blast
  have l: "length (lower bech) = length bech" by (simp add: lower_def)
  have 1: "hrp \<noteq> []" using h p l by auto
  have 2: "lower hrp = hrp" by (simp add: h lower_take lower_idem)
  have 3: "length hrp \<le> 83" using h p by simp
  have 4: "\<forall>c\<in>set hrp. 33 \<le> c \<and> c \<le> 126"
    using lower_range[OF r] unfolding h by (meson in_set_takeD)
  have 5: "\<forall>d\<in>set data. 0 \<le> d \<and> d \<le> 31"
  proof
    fix x assume "x \<in> set data"
    then have "x \<in> set (map (find_ch CHARSET) (drop (pos + 1) (lower bech)))"
      unfolding d by (rule in_set_takeD)
    then obtain y where "y \<in> set (drop (pos + 1) (lower bech))" "x = find_ch CHARSET y" by auto
    with cs find_ch_CHARSET show "0 \<le> x \<and> x \<le> 31" by blast
  qed
  from 1 2 3 4 5 show ?thesis by blast
qed

theorem decode_success_shape_witness:
  "bech32_decode (py_str ''bc1qqqqqqqqqqqqqqqqqqqqqqqqqqqqqqqqq9e75rs'') =
     (Some (py_str ''bc''), Some (replicate 33 0)) \<and>
   py_str ''bc'' \<noteq> [] \<and> lower (py_str ''bc'') = py_str ''bc'' \<and> length (py_str ''bc'') \<le> 83 \<and>
   list_all (\<lambda>c. 33 \<le> c \<and> c \<le> 126) (py_str ''bc'') \<and>
   list_all (\<lambda>d. 0 \<le> d \<and> d \<le> 31) (replicate 33 (0::int))"
  using bech32_decode_bc_zero decode_success_shape [OF bech32_decode_bc_zero]
  unfolding list_all_iff by simp

section \<open>The length of an accepted string\<close>

text \<open>
  Claim C2, as the specification states it: every string of more than 90 characters is
  rejected by \<^verbatim>\<open>bech32_decode\<close>. The code has no test on the total length: a string of
  98 characters with a one-letter prefix and 90 data symbols decodes.
\<close>

theorem long_string_decodes:
  "length (py_str ''a1qqqqqqqqqqqqqqqqqqqqqqqqqqqqqqqqqqqqqqqqqqqqqqqqqqqqqqqqqqqqqqqqqqqqqqqqqqqqqqqqqqqqqqqqqqzlppc9'') > 90 \<and>
   bech32_decode (py_str ''a1qqqqqqqqqqqqqqqqqqqqqqqqqqqqqqqqqqqqqqqqqqqqqqqqqqqqqqqqqqqqqqqqqqqqqqqqqqqqqqqqqqqqqqqqqqzlppc9'') = (Some (py_str ''a''), Some (replicate 90 0))"
  using bech32_decode_long by (simp add: py_str_def)

text \<open>
  Claim C2, amended: \<^verbatim>\<open>bech32_decode\<close> bounds the separator position and the checksum,
  not the total length. Whenever it returns \<^verbatim>\<open>(hrp, data)\<close>, the prefix has at most 83
  characters and the string has exactly \<^verbatim>\<open>len(hrp) + 7 + len(data)\<close> characters, hence
  at most \<^verbatim>\<open>90 + len(data)\<close>.
\<close>

theorem decode_length_relation:
  assumes "bech32_decode bech = (Some hrp, Some data)"
  shows "length hrp \<le> 83 \<and> length bech = length hrp + 7 + length data \<and> length bech \<le> 90 + length data"
proof -
  from bech32_decode_SomeD[OF assms] obtain pos where
    p: "1 \<le> pos" "pos \<le> 83" "pos + 7 \<le> length bech"
    and h: "hrp = take pos (lower bech)"
    and d: "data = take (length bech - pos - 7) (map (find_ch CHARSET) (drop (pos + 1) (lower bech)))"
    by blast
  have l: "length (lower bech) = length bech" by (simp add: lower_def)
  have "length hrp = pos" using h p l by simp
  moreover have "length data = length bech - pos - 7" using d p l by simp
  ultimately show ?thesis using p by simp
qed

theorem decode_length_relation_witness:
  "bech32_decode (py_str ''a1qqqqqqqqqqqqqqqqqqqqqqqqqqqqqqqqqqqqqqqqqqqqqqqqqqqqqqqqqqqqqqqqqqqqqqqqqqqqqqqqqqqqqqqqqqzlppc9'') = (Some (py_str ''a''), Some (replicate 90 0)) \<and>
   length (py_str ''a'') \<le> 83 \<and>
   length (py_str ''a1qqqqqqqqqqqqqqqqqqqqqqqqqqqqqqqqqqqqqqqqqqqqqqqqqqqqqqqqqqqqqqqqqqqqqqqqqqqqqqqqqqqqqqqqqqzlppc9'') = length (py_str ''a'') + 7 + length (replicate 90 (0::int)) \<and>
   length (py_str ''a1qqqqqqqqqqqqqqqqqqqqqqqqqqqqqqqqqqqqqqqqqqqqqqqqqqqqqqqqqqqqqqqqqqqqqqqqqqqqqqqqqqqqqqqqqqzlppc9'') \<le> 90 + length (replicate 90 (0::int))"
  using bech32_decode_long decode_length_relation [OF bech32_decode_long] by simp

section \<open>The separator position\<close>

text \<open>
  Claim C7: a string whose last \<^verbatim>\<open>"1"\<close> is at index 0, absent, or at index 84 or more is
  rejected; a string whose last \<^verbatim>\<open>"1"\<close> is at index 83 and that is valid otherwise
  (code points in 33..126, one case, at least six characters after the separator, all
  of them in the alphabet, checksum verified) decodes.
\<close>

theorem separator_boundary:
  "(rfind b1 49 < 1 \<or> 83 < rfind b1 49 \<longrightarrow> bech32_decode b1 = (None, None)) \<and>
   ((\<forall>x\<in>set b2. 33 \<le> x \<and> x \<le> 126) \<and> (lower b2 = b2 \<or> upper b2 = b2) \<and> rfind b2 49 = 83 \<and>
      90 \<le> length b2 \<and> (\<forall>x\<in>set (drop 84 (lower b2)). x \<in> set CHARSET) \<and>
      bech32_verify_checksum (take 83 (lower b2)) (map (find_ch CHARSET) (drop 84 (lower b2)))
    \<longrightarrow> (\<exists>h d. bech32_decode b2 = (Some h, Some d)))"
proof (intro conjI impI)
  assume "rfind b1 49 < 1 \<or> 83 < rfind b1 49"
  then show "bech32_decode b1 = (None, None)" by (rule bech32_decode_sep_low)
next
  assume a: "(\<forall>x\<in>set b2. 33 \<le> x \<and> x \<le> 126) \<and> (lower b2 = b2 \<or> upper b2 = b2) \<and> rfind b2 49 = 83 \<and>
      90 \<le> length b2 \<and> (\<forall>x\<in>set (drop 84 (lower b2)). x \<in> set CHARSET) \<and>
      bech32_verify_checksum (take 83 (lower b2)) (map (find_ch CHARSET) (drop 84 (lower b2)))"
  have "bech32_decode b2 = (Some (take 83 (lower b2)),
           Some (take (length b2 - 83 - 7) (map (find_ch CHARSET) (drop (83 + 1) (lower b2)))))"
    by (rule bech32_decode_SomeI) (use a in auto)
  then show "\<exists>h d. bech32_decode b2 = (Some h, Some d)" by blast
qed

theorem separator_boundary_witness:
  "(rfind (py_str ''1qqqqqq'') 49 < 1 \<or> 83 < rfind (py_str ''1qqqqqq'') 49) \<and>
   bech32_decode (py_str ''1qqqqqq'') = (None, None) \<and>
   list_all (\<lambda>x. 33 \<le> x \<and> x \<le> 126) (py_str ''aaaaaaaaaaaaaaaaaaaaaaaaaaaaaaaaaaaaaaaaaaaaaaaaaaaaaaaaaaaaaaaaaaaaaaaaaaaaaaaaaaa17vhfd0'') \<and>
   (lower (py_str ''aaaaaaaaaaaaaaaaaaaaaaaaaaaaaaaaaaaaaaaaaaaaaaaaaaaaaaaaaaaaaaaaaaaaaaaaaaaaaaaaaaa17vhfd0'') = py_str ''aaaaaaaaaaaaaaaaaaaaaaaaaaaaaaaaaaaaaaaaaaaaaaaaaaaaaaaaaaaaaaaaaaaaaaaaaaaaaaaaaaa17vhfd0'' \<or> upper (py_str ''aaaaaaaaaaaaaaaaaaaaaaaaaaaaaaaaaaaaaaaaaaaaaaaaaaaaaaaaaaaaaaaaaaaaaaaaaaaaaaaaaaa17vhfd0'') = py_str ''aaaaaaaaaaaaaaaaaaaaaaaaaaaaaaaaaaaaaaaaaaaaaaaaaaaaaaaaaaaaaaaaaaaaaaaaaaaaaaaaaaa17vhfd0'') \<and>
   rfind (py_str ''aaaaaaaaaaaaaaaaaaaaaaaaaaaaaaaaaaaaaaaaaaaaaaaaaaaaaaaaaaaaaaaaaaaaaaaaaaaaaaaaaaa17vhfd0'') 49 = 83 \<and> 90 \<le> length (py_str ''aaaaaaaaaaaaaaaaaaaaaaaaaaaaaaaaaaaaaaaaaaaaaaaaaaaaaaaaaaaaaaaaaaaaaaaaaaaaaaaaaaa17vhfd0'') \<and>
   list_all (\<lambda>x. x \<in> set CHARSET) (drop 84 (lower (py_str ''aaaaaaaaaaaaaaaaaaaaaaaaaaaaaaaaaaaaaaaaaaaaaaaaaaaaaaaaaaaaaaaaaaaaaaaaaaaaaaaaaaa17vhfd0''))) \<and>
   bech32_verify_checksum (take 83 (lower (py_str ''aaaaaaaaaaaaaaaaaaaaaaaaaaaaaaaaaaaaaaaaaaaaaaaaaaaaaaaaaaaaaaaaaaaaaaaaaaaaaaaaaaa17vhfd0'')))
     (map (find_ch CHARSET) (drop 84 (lower (py_str ''aaaaaaaaaaaaaaaaaaaaaaaaaaaaaaaaaaaaaaaaaaaaaaaaaaaaaaaaaaaaaaaaaaaaaaaaaaaaaaaaaaa17vhfd0'')))) \<and>
   (\<exists>h d. bech32_decode (py_str ''aaaaaaaaaaaaaaaaaaaaaaaaaaaaaaaaaaaaaaaaaaaaaaaaaaaaaaaaaaaaaaaaaaaaaaaaaaaaaaaaaaa17vhfd0'') = (Some h, Some d))"
proof -
  have h1: "rfind (py_str ''1qqqqqq'') 49 < 1 \<or> 83 < rfind (py_str ''1qqqqqq'') 49"
    by code_simp
  have h2: "list_all (\<lambda>x. 33 \<le> x \<and> x \<le> 126) (py_str ''aaaaaaaaaaaaaaaaaaaaaaaaaaaaaaaaaaaaaaaaaaaaaaaaaaaaaaaaaaaaaaaaaaaaaaaaaaaaaaaaaaa17vhfd0'') \<and>
   (lower (py_str ''aaaaaaaaaaaaaaaaaaaaaaaaaaaaaaaaaaaaaaaaaaaaaaaaaaaaaaaaaaaaaaaaaaaaaaaaaaaaaaaaaaa17vhfd0'') = py_str ''aaaaaaaaaaaaaaaaaaaaaaaaaaaaaaaaaaaaaaaaaaaaaaaaaaaaaaaaaaaaaaaaaaaaaaaaaaaaaaaaaaa17vhfd0'' \<or> upper (py_str ''aaaaaaaaaaaaaaaaaaaaaaaaaaaaaaaaaaaaaaaaaaaaaaaaaaaaaaaaaaaaaaaaaaaaaaaaaaaaaaaaaaa17vhfd0'') = py_str ''aaaaaaaaaaaaaaaaaaaaaaaaaaaaaaaaaaaaaaaaaaaaaaaaaaaaaaaaaaaaaaaaaaaaaaaaaaaaaaaaaaa17vhfd0'') \<and>
   rfind (py_str ''aaaaaaaaaaaaaaaaaaaaaaaaaaaaaaaaaaaaaaaaaaaaaaaaaaaaaaaaaaaaaaaaaaaaaaaaaaaaaaaaaaa17vhfd0'') 49 = 83 \<and> 90 \<le> length (py_str ''aaaaaaaaaaaaaaaaaaaaaaaaaaaaaaaaaaaaaaaaaaaaaaaaaaaaaaaaaaaaaaaaaaaaaaaaaaaaaaaaaaa17vhfd0'') \<and>
   list_all (\<lambda>x. x \<in> set CHARSET) (drop 84 (lower (py_str ''aaaaaaaaaaaaaaaaaaaaaaaaaaaaaaaaaaaaaaaaaaaaaaaaaaaaaaaaaaaaaaaaaaaaaaaaaaaaaaaaaaa17vhfd0''))) \<and>
   bech32_verify_checksum (take 83 (lower (py_str ''aaaaaaaaaaaaaaaaaaaaaaaaaaaaaaaaaaaaaaaaaaaaaaaaaaaaaaaaaaaaaaaaaaaaaaaaaaaaaaaaaaa17vhfd0'')))
     (map (find_ch CHARSET) (drop 84 (lower (py_str ''aaaaaaaaaaaaaaaaaaaaaaaaaaaaaaaaaaaaaaaaaaaaaaaaaaaaaaaaaaaaaaaaaaaaaaaaaaaaaaaaaaa17vhfd0''))))"
    by code_simp
  show ?thesis
    using h1 h2 separator_boundary [of "py_str ''1qqqqqq''" "py_str ''aaaaaaaaaaaaaaaaaaaaaaaaaaaaaaaaaaaaaaaaaaaaaaaaaaaaaaaaaaaaaaaaaaaaaaaaaaaaaaaaaaa17vhfd0''"]
    unfolding list_all_iff by blast
qed

section \<open>The decode path returns\<close>

text \<open>
  Claim C9: \<^verbatim>\<open>bech32_decode(addr)\<close> returns \<^verbatim>\<open>(None, None)\<close> or a pair \<^verbatim>\<open>(hrp, data)\<close>, and
  \<^verbatim>\<open>decode(hrp, addr)\<close> returns (it neither raises nor loops) \<^verbatim>\<open>(None, None)\<close> or a pair
  \<^verbatim>\<open>(witver, witprog)\<close>; so neither the assertion nor the index \<^verbatim>\<open>data[0]\<close> of \<^verbatim>\<open>decode\<close>
  fails. \<^verbatim>\<open>bech32_decode\<close> has no operation that raises and no unbounded loop, which is
  why its model is a total function without an error result.
\<close>

theorem decode_never_raises:
  "(bech32_decode addr = (None, None) \<or> (\<exists>h d. bech32_decode addr = (Some h, Some d))) \<and>
   (decode hrp addr = Some (Inr (None, None)) \<or> (\<exists>v p. decode hrp addr = Some (Inr (Some v, Some p))))"
proof
  show "bech32_decode addr = (None, None) \<or> (\<exists>h d. bech32_decode addr = (Some h, Some d))"
    by (rule bech32_decode_cases)
next
  show "decode hrp addr = Some (Inr (None, None)) \<or> (\<exists>v p. decode hrp addr = Some (Inr (Some v, Some p)))"
  proof (cases "fst (bech32_decode addr) = Some hrp")
    case False
    then show ?thesis by (auto simp: decode_def split: prod.splits)
  next
    case True
    with bech32_decode_cases[of addr] obtain d where bd: "bech32_decode addr = (Some hrp, Some d)"
      by auto
    obtain r where cb: "convertbits (drop 1 d) 5 8 False = Some (Inr r)"
      using convertbits_returns[where t=8 and data="drop 1 d" and f=5 and pad=False] by auto
    show ?thesis
    proof (cases r)
      case None
      with bd cb show ?thesis by (simp add: decode_def)
    next
      case (Some decoded)
      show ?thesis
      proof (cases "length decoded < 2 \<or> length decoded > 40")
        case True
        with bd cb Some show ?thesis by (simp add: decode_def)
      next
        case False
        have "d \<noteq> []"
        proof
          assume "d = []"
          with cb Some have "decoded = []" by (simp add: convertbits_def)
          with False show False by simp
        qed
        then obtain d0 ds where "d = d0 # ds" by (cases d) auto
        with bd cb Some False show ?thesis by (simp add: decode_def)
      qed
    qed
  qed
qed

theorem decode_never_raises_witness:
  "(bech32_decode (py_str ''bc1qqqqqqqqqqqqqqqqqqqqqqqqqqqqqqqqq9e75rs'') = (None, None) \<or>
    (\<exists>h d. bech32_decode (py_str ''bc1qqqqqqqqqqqqqqqqqqqqqqqqqqqqqqqqq9e75rs'') = (Some h, Some d))) \<and>
   (decode (py_str ''bc'') (py_str ''bc1qqqqqqqqqqqqqqqqqqqqqqqqqqqqqqqqq9e75rs'') = Some (Inr (None, None)) \<or>
    (\<exists>v p. decode (py_str ''bc'') (py_str ''bc1qqqqqqqqqqqqqqqqqqqqqqqqqqqqqqqqq9e75rs'') =
       Some (Inr (Some v, Some p))))"
  by (rule decode_never_raises)


section \<open>A created checksum verifies\<close>

text \<open>
  Claim C5: for every prefix \<^verbatim>\<open>hrp\<close> and every list \<^verbatim>\<open>data\<close> of values in 0..31,
  \<^verbatim>\<open>bech32_verify_checksum(hrp, data + bech32_create_checksum(hrp, data))\<close> is true, that
  is, \<^verbatim>\<open>bech32_polymod\<close> of the expanded prefix, the data and the checksum is 1.
\<close>

theorem checksum_verifies:
  assumes "\<forall>d\<in>set data. 0 \<le> d \<and> d \<le> 31"
  shows "bech32_verify_checksum hrp (data @ bech32_create_checksum hrp data) \<and>
         bech32_polymod (bech32_hrp_expand hrp @ data @ bech32_create_checksum hrp data) = 1"
  by (simp add: bech32_verify_checksum_def checksum_verifies_any)

theorem checksum_verifies_witness:
  "list_all (\<lambda>d. 0 \<le> d \<and> d \<le> 31) [3, 0, 31, 17 :: int] \<and>
   bech32_verify_checksum (py_str ''tb'') ([3, 0, 31, 17] @ bech32_create_checksum (py_str ''tb'') [3, 0, 31, 17]) \<and>
   bech32_polymod (bech32_hrp_expand (py_str ''tb'') @ [3, 0, 31, 17] @
     bech32_create_checksum (py_str ''tb'') [3, 0, 31, 17]) = 1"
proof -
  have h: "\<forall>d\<in>set [3, 0, 31, 17 :: int]. 0 \<le> d \<and> d \<le> 31" by simp
  show ?thesis
    using checksum_verifies [OF h, of "py_str ''tb''"] h unfolding list_all_iff by blast
qed


section \<open>Bytes survive the conversion to five-bit groups and back\<close>

text \<open>
  Claim C6: for every list of bytes (integers in 0..255),
  \<^verbatim>\<open>convertbits(bytes, 8, 5, True)\<close> returns a list, and \<^verbatim>\<open>convertbits\<close> of that list with
  \<^verbatim>\<open>(5, 8, False)\<close> returns the original bytes; neither call returns \<^verbatim>\<open>None\<close>, whatever
  the number of padding bits.
\<close>

theorem convertbits_roundtrip:
  assumes "\<forall>b\<in>set bytes. 0 \<le> b \<and> b \<le> 255"
  shows "\<exists>fives. convertbits bytes 8 5 True = Some (Inr (Some fives)) \<and>
           convertbits fives 5 8 False = Some (Inr (Some bytes))"
proof -
  have r: "\<forall>v\<in>set bytes. 0 \<le> v \<and> v < 2 ^ 8" using assms by auto
  have t: "(0::nat) < 5" by simp
  from convertbits_pad[OF t r] obtain fives p where
    f: "convertbits bytes 8 5 True = Some (Inr (Some fives))" "p < 5"
      "length fives * 5 = length bytes * 8 + p" "val 5 0 fives = push_bit p (val 8 0 bytes)"
      "\<forall>x\<in>set fives. 0 \<le> x \<and> x < 2 ^ 5"
    by blast
  from convertbits_unpad[OF f(5) f(3) f(2) f(4)] obtain ret where
    u: "convertbits fives 5 8 False = Some (Inr (Some ret))" "length ret = length bytes"
      "val 8 0 ret = val 8 0 bytes" "\<forall>x\<in>set ret. 0 \<le> x \<and> x < 2 ^ 8"
    by blast
  have "ret = bytes" by (rule val_inj[OF u(2) u(4) r u(3)])
  with f(1) u(1) show ?thesis by blast
qed

theorem convertbits_roundtrip_witness:
  "list_all (\<lambda>b. 0 \<le> b \<and> b \<le> 255) [255, 0, 171 :: int] \<and>
   convertbits [255, 0, 171] 8 5 True = Some (Inr (Some [31, 28, 0, 10, 22])) \<and>
   convertbits [31, 28, 0, 10, 22] 5 8 False = Some (Inr (Some [255, 0, 171]))"
proof -
  have h: "\<forall>b\<in>set [255, 0, 171 :: int]. 0 \<le> b \<and> b \<le> 255" by simp
  from convertbits_roundtrip [OF h] obtain fives where
    f: "convertbits [255, 0, 171] 8 5 True = Some (Inr (Some fives))"
       "convertbits fives 5 8 False = Some (Inr (Some [255, 0, 171]))"
    by blast
  have "convertbits [255, 0, 171] 8 5 True = Some (Inr (Some [31, 28, 0, 10, 22]))"
    by code_simp
  with f have "fives = [31, 28, 0, 10, 22]" by simp
  with f h show ?thesis unfolding list_all_iff by simp
qed


section \<open>Witness addresses survive encoding and decoding\<close>

text \<open>
  Claim C1: for a non-empty, all-lowercase prefix of at most 83 characters with code
  points in 33..126, a witness version in 0..16 and a witness program of 2 to 40 bytes
  (20 or 32 bytes for version 0), \<^verbatim>\<open>encode(hrp, witver, witprog)\<close> returns a string, and
  \<^verbatim>\<open>decode(hrp, \<close>that string\<^verbatim>\<open>)\<close> returns exactly \<^verbatim>\<open>(witver, witprog)\<close>.
\<close>

theorem encode_decode_roundtrip:
  assumes "hrp \<noteq> []" "lower hrp = hrp" "length hrp \<le> 83" "\<forall>c\<in>set hrp. 33 \<le> c \<and> c \<le> 126"
    and "0 \<le> witver" "witver \<le> 16"
    and "\<forall>b\<in>set witprog. 0 \<le> b \<and> b \<le> 255" "2 \<le> length witprog" "length witprog \<le> 40"
    and "witver = 0 \<longrightarrow> length witprog = 20 \<or> length witprog = 32"
  shows "\<exists>s. encode hrp witver witprog = Some (Inr (Some s)) \<and>
           decode hrp s = Some (Inr (Some witver, Some witprog))"
proof -
  from convertbits_there_and_back[OF assms(7)] obtain fives where
    f: "convertbits witprog 8 5 True = Some (Inr (Some fives))"
      "\<forall>x\<in>set fives. 0 \<le> x \<and> x \<le> 31"
      "convertbits fives 5 8 False = Some (Inr (Some witprog))"
    by blast
  have d: "\<forall>d\<in>set (witver # fives). 0 \<le> d \<and> d \<le> 31"
    using f(2) assms(5,6) by auto
  from bech32_roundtrip[OF assms(1-4) d] obtain s where
    s: "bech32_encode hrp (witver # fives) = Inr s"
      "bech32_decode s = (Some hrp, Some (witver # fives))"
    by blast
  have dec: "decode hrp s = Some (Inr (Some witver, Some witprog))"
    using s(2) f(3) assms(6,8,9,10) by (auto simp: decode_def)
  then have "encode hrp witver witprog = Some (Inr (Some s))"
    using f(1) s(1) by (simp add: encode_def)
  with dec show ?thesis by blast
qed

theorem encode_decode_roundtrip_witness:
  "py_str ''bc'' \<noteq> [] \<and> lower (py_str ''bc'') = py_str ''bc'' \<and> length (py_str ''bc'') \<le> 83 \<and>
   list_all (\<lambda>c. 33 \<le> c \<and> c \<le> 126) (py_str ''bc'') \<and> (0::int) \<le> 0 \<and> (0::int) \<le> 16 \<and>
   list_all (\<lambda>b. 0 \<le> b \<and> b \<le> 255) (replicate 20 (0::int)) \<and>
   2 \<le> length (replicate 20 (0::int)) \<and> length (replicate 20 (0::int)) \<le> 40 \<and>
   (length (replicate 20 (0::int)) = 20 \<or> length (replicate 20 (0::int)) = 32) \<and>
   encode (py_str ''bc'') 0 (replicate 20 0) =
     Some (Inr (Some (py_str ''bc1qqqqqqqqqqqqqqqqqqqqqqqqqqqqqqqqq9e75rs''))) \<and>
   decode (py_str ''bc'') (py_str ''bc1qqqqqqqqqqqqqqqqqqqqqqqqqqqqqqqqq9e75rs'') =
     Some (Inr (Some 0, Some (replicate 20 0)))"
proof -
  have h: "py_str ''bc'' \<noteq> []" "lower (py_str ''bc'') = py_str ''bc''" "length (py_str ''bc'') \<le> 83"
    "\<forall>c\<in>set (py_str ''bc''). 33 \<le> c \<and> c \<le> 126"
    by (simp_all add: py_str_def lower_def lower_ch_def)
  have w: "\<forall>b\<in>set (replicate 20 (0::int)). 0 \<le> b \<and> b \<le> 255" "2 \<le> length (replicate 20 (0::int))"
    "length (replicate 20 (0::int)) \<le> 40"
    "(0::int) = 0 \<longrightarrow> length (replicate 20 (0::int)) = 20 \<or> length (replicate 20 (0::int)) = 32"
    by simp_all
  have v: "(0::int) \<le> 0" "(0::int) \<le> 16" by simp_all
  from encode_decode_roundtrip [OF h v w] obtain s where
    s: "encode (py_str ''bc'') 0 (replicate 20 0) = Some (Inr (Some s))"
       "decode (py_str ''bc'') s = Some (Inr (Some 0, Some (replicate 20 0)))"
    by blast
  from s(1) have "s = py_str ''bc1qqqqqqqqqqqqqqqqqqqqqqqqqqqqqqqqq9e75rs''"
    unfolding encode_bc_zero by simp
  with s h w v show ?thesis unfolding list_all_iff by simp
qed


section \<open>Single-character changes\<close>

text \<open>
  Claim C8, as the specification states it: on a string that \<^verbatim>\<open>bech32_decode\<close> accepts,
  replacing any one character by any other character gives a string that it rejects.
  Three changes of one character that it accepts: the only letter of a string changes
  case (the decoder lowercases its input); a data character becomes \<^verbatim>\<open>"1"\<close>, which moves
  the separator to the right; the separator becomes a data character, which moves the
  separator to an earlier \<^verbatim>\<open>"1"\<close>.
\<close>

theorem single_changes_accepted:
  "bech32_decode (py_str ''a19267542334'') = (Some (py_str ''a''), Some [5, 10, 26, 30]) \<and>
   0 < length (py_str ''a19267542334'') \<and> 65 \<noteq> py_str ''a19267542334'' ! 0 \<and>
   bech32_decode ((py_str ''a19267542334'')[0 := 65]) = (Some (py_str ''a''), Some [5, 10, 26, 30]) \<and>
   bech32_decode (py_str ''!1uyrxg9x3fegc'') = (Some (py_str ''!''), Some [28, 4, 3, 6, 8, 5]) \<and>
   7 < length (py_str ''!1uyrxg9x3fegc'') \<and> 49 \<noteq> py_str ''!1uyrxg9x3fegc'' ! 7 \<and>
   bech32_decode ((py_str ''!1uyrxg9x3fegc'')[7 := 49]) = (Some (py_str ''!1uyrxg''), Some []) \<and>
   bech32_decode (py_str ''!1uyrxg1x3fegc'') = (Some (py_str ''!1uyrxg''), Some []) \<and>
   7 < length (py_str ''!1uyrxg1x3fegc'') \<and> 57 \<noteq> py_str ''!1uyrxg1x3fegc'' ! 7 \<and>
   bech32_decode ((py_str ''!1uyrxg1x3fegc'')[7 := 57]) = (Some (py_str ''!''), Some [28, 4, 3, 6, 8, 5])"
  by code_simp

text \<open>
  Claim C8, amended: on a string \<open>s\<close> that \<^verbatim>\<open>bech32_decode\<close> accepts, replacing the
  character at any position \<open>i\<close> by a character \<open>c\<close> that differs from it by more
  than letter case, so that the last \<^verbatim>\<open>"1"\<close> stays where it was (the separator is not
  overwritten and no \<^verbatim>\<open>"1"\<close> is put after it), gives a string that \<^verbatim>\<open>bech32_decode\<close>
  rejects.
\<close>

theorem single_change_detected:
  assumes "bech32_decode s = (Some h, Some d)" "i < length s"
    and "lower_ch c \<noteq> lower_ch (s ! i)"
    and "rfind (s[i := c]) 49 = rfind s 49"
  shows "bech32_decode (s[i := c]) = (None, None)"
proof (rule ccontr)
  assume "bech32_decode (s[i := c]) \<noteq> (None, None)"
  with bech32_decode_cases[of "s[i := c]"] obtain h' d' where
    dec': "bech32_decode (s[i := c]) = (Some h', Some d')" by blast
  define L where "L = lower s"
  define c' where "c' = lower_ch c"
  have L': "lower (s[i := c]) = L[i := c']" by (simp add: lower_update L_def c'_def)
  have lenL: "length L = length s" by (simp add: L_def lower_def)
  have ne: "c' \<noteq> L ! i" using assms(2,3) by (simp add: L_def c'_def lower_nth)
  from bech32_decode_SomeD[OF assms(1)] obtain pos where
    r: "\<forall>x\<in>set s. 33 \<le> x \<and> x \<le> 126" and rf: "rfind s 49 = int pos"
    and p: "1 \<le> pos" "pos \<le> 83" "pos + 7 \<le> length s"
    and cs: "\<forall>x\<in>set (drop (pos + 1) L). x \<in> set CHARSET"
    and ver: "bech32_verify_checksum (take pos L) (map (find_ch CHARSET) (drop (pos + 1) L))"
    unfolding L_def by blast
  from bech32_decode_SomeD[OF dec'] obtain pos' where
    r': "\<forall>x\<in>set (s[i := c]). 33 \<le> x \<and> x \<le> 126" and rf': "rfind (s[i := c]) 49 = int pos'"
    and cs': "\<forall>x\<in>set (drop (pos' + 1) (L[i := c'])). x \<in> set CHARSET"
    and ver': "bech32_verify_checksum (take pos' (L[i := c']))
        (map (find_ch CHARSET) (drop (pos' + 1) (L[i := c'])))"
    unfolding L' by blast
  have pp: "pos' = pos" using assms(4) rf rf' by simp
  have rL: "\<forall>x\<in>set L. 33 \<le> x \<and> x \<le> 126"
    unfolding L_def by (rule lower_range[OF r])
  have rL': "\<forall>x\<in>set (L[i := c']). 33 \<le> x \<and> x \<le> 126"
    unfolding L'[symmetric] by (rule lower_range[OF r'])
  have xr: "33 \<le> L ! i \<and> L ! i \<le> 126"
    using rL assms(2) lenL by (simp add: all_set_conv_all_nth)
  have "c' \<in> set (L[i := c'])"
    using assms(2) lenL by (simp add: set_update_memI)
  with rL' have cr: "33 \<le> c' \<and> c' \<le> 126" by blast
  have ipos: "i \<noteq> pos"
  proof
    assume ip: "i = pos"
    have "s ! nat (rfind s 49) = 49" by (rule rfind_nth) (simp add: rf)
    then have a: "s ! i = 49" by (simp add: rf ip)
    have "s[i := c] ! nat (rfind (s[i := c]) 49) = 49" by (rule rfind_nth) (simp add: rf')
    then have "s[i := c] ! pos = 49" by (simp add: rf' pp)
    then have "c = 49" using assms(2) by (simp add: ip[symmetric])
    with a assms(3) show False by simp
  qed
  show False
  proof (cases "i < pos")
    case True
    define H where "H = take pos L"
    define T where "T = map (find_ch CHARSET) (drop (pos + 1) L)"
    define A where "A = take i H"
    define B where "B = drop (Suc i) H"
    have lH: "length H = pos" using p lenL by (simp add: H_def)
    have iH: "i < length H" using True lH by simp
    have Hi: "H ! i = L ! i" using True by (simp add: H_def)
    have t': "take pos (L[i := c']) = H[i := c']" by (simp add: H_def take_update_swap)
    have d': "drop (pos + 1) (L[i := c']) = drop (pos + 1) L" using True by simp
    have H1: "H = A @ (L ! i) # B"
      unfolding A_def B_def Hi[symmetric] by (rule id_take_nth_drop[OF iH])
    have H2: "H[i := c'] = A @ c' # B"
      unfolding A_def B_def by (rule upd_conv_take_nth_drop[OF iH])
    have lAB: "length A + length B < 83"
      using iH lH p(2) by (simp add: A_def B_def)
    have v1: "bech32_polymod (bech32_hrp_expand (A @ (L ! i) # B) @ T) = 1"
      using ver unfolding bech32_verify_checksum_def H_def[symmetric] T_def[symmetric] H1 .
    have v2: "bech32_polymod (bech32_hrp_expand (A @ c' # B) @ T) = 1"
      using ver' unfolding bech32_verify_checksum_def pp t' d' T_def[symmetric] H2 .
    have "L ! i = c'"
      using xr cr lAB v1 v2 by (blast intro: prefix_change_detected)
    with ne show False by simp
  next
    case False
    with ipos have gt: "pos < i" by simp
    define C where "C = drop (pos + 1) L"
    define j where "j = i - (pos + 1)"
    define T where "T = map (find_ch CHARSET) C"
    define E where "E = bech32_hrp_expand (take pos L)"
    have jC: "j < length C" using gt assms(2) lenL by (simp add: C_def j_def)
    have Cj: "C ! j = L ! i" using gt assms(2) lenL by (simp add: C_def j_def)
    have t': "take pos (L[i := c']) = take pos L" using gt by simp
    have d': "drop (pos + 1) (L[i := c']) = C[j := c']"
      using gt by (simp add: C_def j_def drop_update_swap)
    have C1: "C = take j C @ (L ! i) # drop (Suc j) C"
      unfolding Cj[symmetric] by (rule id_take_nth_drop[OF jC])
    have C2: "C[j := c'] = take j C @ c' # drop (Suc j) C"
      by (rule upd_conv_take_nth_drop[OF jC])
    have xin: "L ! i \<in> set CHARSET"
      using cs jC Cj unfolding C_def[symmetric] by (metis nth_mem)
    have "c' \<in> set (C[j := c'])" using jC by (simp add: set_update_memI)
    with cs' have cin: "c' \<in> set CHARSET" unfolding pp d' by blast
    define P where "P = map (find_ch CHARSET) (take j C)"
    define S where "S = map (find_ch CHARSET) (drop (Suc j) C)"
    have m1: "map (find_ch CHARSET) C = P @ find_ch CHARSET (L ! i) # S"
      unfolding P_def S_def by (subst C1) simp
    have m2: "map (find_ch CHARSET) (C[j := c']) = P @ find_ch CHARSET c' # S"
      unfolding P_def S_def by (subst C2) simp
    have v1: "bech32_polymod (E @ P @ find_ch CHARSET (L ! i) # S) = 1"
      using ver unfolding bech32_verify_checksum_def C_def[symmetric] E_def[symmetric] m1 .
    have v2: "bech32_polymod (E @ P @ find_ch CHARSET c' # S) = 1"
      using ver' unfolding bech32_verify_checksum_def pp t' d' E_def[symmetric] m2 .
    have "L ! i = c'"
      by (rule symbol_change_detected[OF xin cin v1 v2])
    with ne show False by simp
  qed
qed

theorem single_change_detected_witness:
  "bech32_decode (py_str ''a19267542334'') = (Some (py_str ''a''), Some [5, 10, 26, 30]) \<and>
   0 < length (py_str ''a19267542334'') \<and>
   lower_ch 98 \<noteq> lower_ch (py_str ''a19267542334'' ! 0) \<and>
   rfind ((py_str ''a19267542334'')[0 := 98]) 49 = rfind (py_str ''a19267542334'') 49 \<and>
   bech32_decode ((py_str ''a19267542334'')[0 := 98]) = (None, None)"
proof -
  have h1: "bech32_decode (py_str ''a19267542334'') = (Some (py_str ''a''), Some [5, 10, 26, 30])"
    by code_simp
  have h2: "0 < length (py_str ''a19267542334'')"
    by (simp add: py_str_def)
  have h3: "lower_ch 98 \<noteq> lower_ch (py_str ''a19267542334'' ! 0)"
    by (simp add: py_str_def lower_ch_def)
  have h4: "rfind ((py_str ''a19267542334'')[0 := 98]) 49 = rfind (py_str ''a19267542334'') 49"
    by code_simp
  show ?thesis
    using h1 h2 h3 h4 single_change_detected [OF h1 h2 h3 h4] by blast
qed

end
